theory Spec2Isabelle
  imports Complex_Main "HOL-Library.Word"
begin

section \<open>The minibatch loader of neon (loader.hpp): model\<close>

text \<open>
  The development embeds the three classes of \<^verbatim>\<open>loader/src/loader.hpp\<close>
  (\<^verbatim>\<open>DecodeThreadPool\<close>, \<^verbatim>\<open>ReadThread\<close>, \<^verbatim>\<open>Loader\<close>) and the trainer loop
  \<^verbatim>\<open>multi\<close> of \<^verbatim>\<open>loader/test/thread_test.cpp\<close>.

  Conventions.
  \<^item> A C++ \<^verbatim>\<open>int\<close> is an Isabelle \<open>int\<close>. Every quantity computed below from a
    batch size \<open>B \<ge> 1\<close> lies between \<open>0\<close> and \<open>2 * B\<close> (see \<open>ipt_le\<close>,
    \<open>start_threadCount_props\<close>), so the 32-bit range matters only to the byte lengths
    \<open>B * datumSize * datumTypeSize\<close>, on which no statement here depends.
  \<^item> C++ division truncates towards zero: \<open>c_div\<close>.
  \<^item> A \<^verbatim>\<open>char\<close> is a \<open>byte\<close>; a raw buffer is a list of bytes and a pointer into it
    is an offset.
\<close>

subsection \<open>Integer arithmetic of C++\<close>

definition c_div :: "int \<Rightarrow> int \<Rightarrow> int" where
  "c_div a b = sgn a * sgn b * (\<bar>a\<bar> div \<bar>b\<bar>)"

subsection \<open>DecodeThreadPool: constructor and partition (\<^verbatim>\<open>run\<close>)\<close>

text \<open>\<^verbatim>\<open>_itemsPerThread((batchSize - 1) / count + 1)\<close>\<close>

definition ctor_itemsPerThread :: "int \<Rightarrow> int \<Rightarrow> int" where
  "ctor_itemsPerThread batchSize count = c_div (batchSize - 1) count + 1"

text \<open>The two assertions of the constructor body.\<close>

definition ctor_asserts :: "int \<Rightarrow> int \<Rightarrow> bool" where
  "ctor_asserts batchSize count \<longleftrightarrow>
     ctor_itemsPerThread batchSize count * count \<ge> batchSize \<and>
     ctor_itemsPerThread batchSize count * (count - 1) < batchSize"

text \<open>\<^verbatim>\<open>run(id)\<close>: \<^verbatim>\<open>_startInds[id]\<close>, the local \<^verbatim>\<open>itemCount\<close>, \<^verbatim>\<open>_endInds[id]\<close>.\<close>

definition run_startInd :: "int \<Rightarrow> int \<Rightarrow> int \<Rightarrow> int" where
  "run_startInd batchSize count wid = wid * ctor_itemsPerThread batchSize count"

definition run_itemCount :: "int \<Rightarrow> int \<Rightarrow> int \<Rightarrow> int" where
  "run_itemCount batchSize count wid =
     (if wid = count - 1 then batchSize - wid * ctor_itemsPerThread batchSize count
      else ctor_itemsPerThread batchSize count)"

definition run_endInd :: "int \<Rightarrow> int \<Rightarrow> int \<Rightarrow> int" where
  "run_endInd batchSize count wid =
     run_startInd batchSize count wid + run_itemCount batchSize count wid"

text \<open>The indices visited by \<^verbatim>\<open>for (int i = start; i < end; i++)\<close> in \<^verbatim>\<open>work(id)\<close>.\<close>

definition work_items :: "int \<Rightarrow> int \<Rightarrow> int \<Rightarrow> int set" where
  "work_items batchSize count wid =
     {run_startInd batchSize count wid ..< run_endInd batchSize count wid}"

subsection \<open>Loader::start: the number of decode workers\<close>

text \<open>
  \<^verbatim>\<open>int itemsPerThread = (_batchSize - 1) / numCores + 1;\<close>
  \<^verbatim>\<open>int threadCount = (_batchSize - 1) / itemsPerThread + 1;\<close>
  \<^verbatim>\<open>threadCount = std::min(threadCount, _batchSize);\<close>
\<close>

definition start_threadCount :: "int \<Rightarrow> int \<Rightarrow> int" where
  "start_threadCount batchSize numCores =
     (let itemsPerThread = c_div (batchSize - 1) numCores + 1;
          threadCount = c_div (batchSize - 1) itemsPerThread + 1
      in min threadCount batchSize)"

text \<open>The formula of the specification, in its own words: \<open>N = min(B, ceil(B / hc))\<close>.\<close>

definition spec_threadCount :: "int \<Rightarrow> int \<Rightarrow> int" where
  "spec_threadCount B hc = min B \<lceil>real_of_int B / real_of_int hc\<rceil>"


subsection \<open>Buffers\<close>

type_synonym byte = "8 word"

text \<open>
  The decoded \<^verbatim>\<open>BufferTuple\<close> of the decode pool: \<^verbatim>\<open>_data\<close> of the data buffer, of the
  targets buffer and of the meta buffer (\<open>2 * batchSize\<close> ints).
\<close>

record BufferTuple =
  bt_data :: "byte list"
  bt_targets :: "byte list"
  bt_meta :: "int list"

text \<open>
  \<^verbatim>\<open>memcpy(dst + off, src, n)\<close>, \<^verbatim>\<open>memset(dst + off, c, n)\<close> and \<^verbatim>\<open>*(dst + off) = v\<close>. A length
  is converted to \<^verbatim>\<open>size_t\<close>, so a negative one reads and writes far outside any buffer;
  an access outside the buffers is undefined behaviour, here \<open>None\<close>.
\<close>

definition memcpy :: "byte list \<Rightarrow> int \<Rightarrow> byte list \<Rightarrow> int \<Rightarrow> byte list option" where
  "memcpy dst off src n =
     (if 0 \<le> off \<and> 0 \<le> n \<and> nat n \<le> length src \<and> nat off + nat n \<le> length dst
      then Some (take (nat off) dst @ take (nat n) src @ drop (nat off + nat n) dst)
      else None)"

definition memset :: "byte list \<Rightarrow> int \<Rightarrow> byte \<Rightarrow> int \<Rightarrow> byte list option" where
  "memset dst off c n =
     (if 0 \<le> off \<and> 0 \<le> n \<and> nat off + nat n \<le> length dst
      then Some (take (nat off) dst @ replicate (nat n) c @ drop (nat off + nat n) dst)
      else None)"

definition store_int :: "int list \<Rightarrow> int \<Rightarrow> int \<Rightarrow> int list option" where
  "store_int dst off v =
     (if 0 \<le> off \<and> nat off < length dst then Some (dst[nat off := v]) else None)"

text \<open>
  Modelled from the spec: \<^verbatim>\<open>Buffer::getItem\<close> (buffer.hpp is not among the sources). A
  buffer of the read pool stores variable-length items end to end; \<^verbatim>\<open>getItem(i, len)\<close>
  returns the pointer to item \<open>i\<close> and sets \<open>len\<close> to its length, and returns null (here
  \<open>None\<close>) where there is no item \<open>i\<close>. The encoded buffer is the list of its items.
\<close>

definition getItem :: "byte list list \<Rightarrow> int \<Rightarrow> (byte list \<times> int) option" where
  "getItem its i =
     (if 0 \<le> i \<and> nat i < length its then Some (its ! nat i, int (length (its ! nat i)))
      else None)"

subsection \<open>DecodeThreadPool: fields and the two \<^verbatim>\<open>transform\<close> overloads\<close>

text \<open>The configuration fields the constructor stores (\<^verbatim>\<open>_count\<close>, \<^verbatim>\<open>_batchSize\<close>, ...).\<close>

record DecodeThreadPool =
  dt_count :: int
  dt_batchSize :: int
  dt_datumSize :: int
  dt_datumTypeSize :: int
  dt_targetSize :: int
  dt_targetTypeSize :: int
  dt_targetConversion :: int

text \<open>\<^verbatim>\<open>_datumLen(datumSize * datumTypeSize), _targetLen(targetSize * targetTypeSize)\<close>\<close>

definition dt_datumLen :: "DecodeThreadPool \<Rightarrow> int" where
  "dt_datumLen p = dt_datumSize p * dt_datumTypeSize p"

definition dt_targetLen :: "DecodeThreadPool \<Rightarrow> int" where
  "dt_targetLen p = dt_targetSize p * dt_targetTypeSize p"

text \<open>
  The media transformer is a collaborator outside the sources (media.hpp); it is a parameter.
  The datum-only entry point \<^verbatim>\<open>transform(encDatum, encDatumLen, datumBuf, datumLen, meta)\<close>
  is given by the bytes it decodes into \<^verbatim>\<open>datumBuf\<close> and the scalar it may write to
  \<^verbatim>\<open>*meta\<close>; the joint entry point by the decoded datum and the decoded target. The first
  argument is the worker whose instance \<^verbatim>\<open>_media[id]\<close> is called. \<^verbatim>\<open>READ_CONTENTS\<close> is a
  constant declared outside the sources.
\<close>

type_synonym media_datum = "nat \<Rightarrow> byte list \<Rightarrow> int \<Rightarrow> int \<Rightarrow> byte list \<times> int option"

type_synonym media_joint =
  "nat \<Rightarrow> byte list \<Rightarrow> int \<Rightarrow> byte list \<Rightarrow> int \<Rightarrow> int \<Rightarrow> int \<Rightarrow> byte list \<times> byte list"

record externals =
  ext_media :: media_datum
  ext_joint :: media_joint
  ext_READ_CONTENTS :: int

text \<open>\<^verbatim>\<open>_media[id]->transform(encDatum, encDatumLen, datumBuf, _datumLen, meta);\<close>\<close>

definition media_transform ::
  "media_datum \<Rightarrow> nat \<Rightarrow> byte list \<Rightarrow> int \<Rightarrow> int \<Rightarrow> int \<Rightarrow> int \<Rightarrow> BufferTuple
     \<Rightarrow> BufferTuple option" where
  "media_transform media wid encDatum encDatumLen datumBuf datumLen metaBuf dst =
     (case media wid encDatum encDatumLen datumLen of (decoded, scalar) \<Rightarrow>
        (case memcpy (bt_data dst) datumBuf decoded datumLen of
           None \<Rightarrow> None
         | Some d \<Rightarrow>
            (case scalar of
               None \<Rightarrow> Some (dst\<lparr>bt_data := d\<rparr>)
             | Some v \<Rightarrow>
                (case store_int (bt_meta dst) metaBuf v of
                   None \<Rightarrow> None
                 | Some m \<Rightarrow> Some (dst\<lparr>bt_data := d, bt_meta := m\<rparr>)))))"

text \<open>
  The overload of \<^verbatim>\<open>transform\<close> with an \<^verbatim>\<open>int* meta\<close> (target conversion other than
  \<^verbatim>\<open>READ_CONTENTS\<close>). The parameter \<^verbatim>\<open>encTargetLen\<close> is overwritten by the truncation; the
  value stored at \<^verbatim>\<open>*(meta + _batchSize)\<close> is the overwritten one.
\<close>

definition transform_meta ::
  "media_datum \<Rightarrow> DecodeThreadPool \<Rightarrow> nat \<Rightarrow> byte list \<Rightarrow> int \<Rightarrow> byte list \<Rightarrow> int
     \<Rightarrow> int \<Rightarrow> int \<Rightarrow> int \<Rightarrow> BufferTuple \<Rightarrow> BufferTuple option" where
  "transform_meta media p wid encDatum encDatumLen encTarget encTargetLen0
       datumBuf targetBuf metaBuf dst0 =
     (case media_transform media wid encDatum encDatumLen datumBuf (dt_datumLen p) metaBuf dst0 of
        None \<Rightarrow> None
      | Some dst1 \<Rightarrow>
         (let encTargetLen =
                (if encTargetLen0 > dt_targetLen p then dt_targetLen p else encTargetLen0)
          in case memcpy (bt_targets dst1) targetBuf encTarget encTargetLen of
               None \<Rightarrow> None
             | Some t1 \<Rightarrow>
                (case (if dt_targetLen p > encTargetLen
                       then memset t1 (targetBuf + encTargetLen) 0 (dt_targetLen p - encTargetLen)
                       else Some t1) of
                   None \<Rightarrow> None
                 | Some t2 \<Rightarrow>
                    (case store_int (bt_meta dst1) (metaBuf + dt_batchSize p) encTargetLen of
                       None \<Rightarrow> None
                     | Some m \<Rightarrow> Some (dst1\<lparr>bt_targets := t2, bt_meta := m\<rparr>)))))"

text \<open>The overload with a \<^verbatim>\<open>bool\<close>: datum and target are decoded together.\<close>

definition transform_joint ::
  "media_joint \<Rightarrow> DecodeThreadPool \<Rightarrow> nat \<Rightarrow> byte list \<Rightarrow> int \<Rightarrow> byte list \<Rightarrow> int
     \<Rightarrow> int \<Rightarrow> int \<Rightarrow> BufferTuple \<Rightarrow> BufferTuple option" where
  "transform_joint joint p wid encDatum encDatumLen encTarget encTargetLen datumBuf targetBuf dst =
     (case joint wid encDatum encDatumLen encTarget encTargetLen (dt_datumLen p) (dt_targetLen p) of
        (decDatum, decTarget) \<Rightarrow>
          (case memcpy (bt_data dst) datumBuf decDatum (dt_datumLen p) of
             None \<Rightarrow> None
           | Some d \<Rightarrow>
              (case memcpy (bt_targets dst) targetBuf decTarget (dt_targetLen p) of
                 None \<Rightarrow> None
               | Some t \<Rightarrow> Some (dst\<lparr>bt_data := d, bt_targets := t\<rparr>))))"

subsection \<open>DecodeThreadPool::work: the item loop of one worker\<close>

text \<open>
  The loop \<^verbatim>\<open>for (int i = start; i < end; i++)\<close> of \<^verbatim>\<open>work(id)\<close> with its three running
  pointers. \<^verbatim>\<open>assert(encDatum != 0)\<close> stops at a missing datum; a missing target leaves
  \<^verbatim>\<open>encTargetLen = 0\<close>.
\<close>

function work_loop ::
  "externals \<Rightarrow> DecodeThreadPool \<Rightarrow> nat \<Rightarrow> byte list list \<Rightarrow> byte list list
     \<Rightarrow> int \<Rightarrow> int \<Rightarrow> int \<Rightarrow> int \<Rightarrow> int \<Rightarrow> BufferTuple \<Rightarrow> BufferTuple option" where
  "work_loop ext p wid srcData srcTargets i end datumBuf targetBuf metaBuf dst =
     (if i < end then
        (case getItem srcData i of
           None \<Rightarrow> None
         | Some (encDatum, encDatumLen) \<Rightarrow>
            (case (case getItem srcTargets i of None \<Rightarrow> ([], 0) | Some x \<Rightarrow> x) of
               (encTarget, encTargetLen) \<Rightarrow>
                 (case (if dt_targetConversion p = ext_READ_CONTENTS ext
                        then transform_joint (ext_joint ext) p wid encDatum encDatumLen
                               encTarget encTargetLen datumBuf targetBuf dst
                        else transform_meta (ext_media ext) p wid encDatum encDatumLen
                               encTarget encTargetLen datumBuf targetBuf metaBuf dst) of
                    None \<Rightarrow> None
                  | Some dst' \<Rightarrow>
                      work_loop ext p wid srcData srcTargets (i + 1) end
                        (datumBuf + dt_datumLen p) (targetBuf + dt_targetLen p) (metaBuf + 1) dst')))
      else Some dst)"
  by pat_completeness auto
termination
  by (relation "measure (\<lambda>(ext, p, wid, srcData, srcTargets, i, e, r). nat (e - i))") auto

declare work_loop.simps [simp del]

text \<open>
  The data part of \<^verbatim>\<open>work(id)\<close>: \<^verbatim>\<open>start = _startInds[id]\<close>, \<^verbatim>\<open>end = _endInds[id]\<close>, and the
  pointers start at \<^verbatim>\<open>_dataOffsets[id]\<close>, \<^verbatim>\<open>_targetOffsets[id]\<close>, \<^verbatim>\<open>_metaOffsets[id]\<close>, which
  \<^verbatim>\<open>run(id)\<close> set to \<open>start * _datumLen\<close>, \<open>start * _targetLen\<close> and \<open>start\<close>.
\<close>

definition work_decode ::
  "externals \<Rightarrow> DecodeThreadPool \<Rightarrow> nat \<Rightarrow> byte list list \<Rightarrow> byte list list
     \<Rightarrow> BufferTuple \<Rightarrow> BufferTuple option" where
  "work_decode ext p wid srcData srcTargets dst =
     (let start = run_startInd (dt_batchSize p) (dt_count p) (int wid);
          end = run_endInd (dt_batchSize p) (dt_count p) (int wid)
      in work_loop ext p wid srcData srcTargets start end
           (start * dt_datumLen p) (start * dt_targetLen p) start dst)"

text \<open>Auxiliary notions for stating what the loop leaves in the output tuple.\<close>

definition pad_target :: "DecodeThreadPool \<Rightarrow> byte list \<Rightarrow> int \<Rightarrow> byte list" where
  "pad_target p encTarget encTargetLen =
     take (nat (min encTargetLen (dt_targetLen p))) encTarget @
     replicate (nat (dt_targetLen p - min encTargetLen (dt_targetLen p))) 0"

definition target_slot :: "DecodeThreadPool \<Rightarrow> int \<Rightarrow> BufferTuple \<Rightarrow> byte list" where
  "target_slot p i dst =
     take (nat (dt_targetLen p)) (drop (nat (i * dt_targetLen p)) (bt_targets dst))"

text \<open>
  The decode buffers as \<^verbatim>\<open>Loader::start\<close> allocates them: \<open>batchSize\<close> strides of data and
  of targets, \<open>2 * batchSize\<close> ints of meta.
\<close>

definition sized :: "DecodeThreadPool \<Rightarrow> BufferTuple \<Rightarrow> bool" where
  "sized p dst \<longleftrightarrow>
     0 \<le> dt_datumLen p \<and> 0 \<le> dt_targetLen p \<and>
     int (length (bt_data dst)) = dt_batchSize p * dt_datumLen p \<and>
     int (length (bt_targets dst)) = dt_batchSize p * dt_targetLen p \<and>
     int (length (bt_meta dst)) = 2 * dt_batchSize p"

text \<open>A small configuration: one item per batch, a target slot of four bytes.\<close>

definition ex_pool :: DecodeThreadPool where
  "ex_pool = \<lparr>dt_count = 1, dt_batchSize = 1, dt_datumSize = 1, dt_datumTypeSize = 1,
     dt_targetSize = 1, dt_targetTypeSize = 4, dt_targetConversion = 1\<rparr>"

definition ex_ext :: externals where
  "ex_ext = \<lparr>ext_media = (\<lambda>wid encDatum encDatumLen datumLen. (replicate (nat datumLen) 7, None)),
     ext_joint = (\<lambda>wid encDatum encDatumLen encTarget encTargetLen datumLen targetLen.
        (replicate (nat datumLen) 7, replicate (nat targetLen) 8)),
     ext_READ_CONTENTS = 3\<rparr>"

definition ex_dst :: BufferTuple where
  "ex_dst = \<lparr>bt_data = [9], bt_targets = [9, 9, 9, 9], bt_meta = [0, 0]\<rparr>"

section \<open>The pipeline: threads, pools and the device\<close>

text \<open>
  The pipeline is a transition system. A state holds the fields of \<^verbatim>\<open>Loader\<close>,
  \<^verbatim>\<open>ReadThread\<close> and \<^verbatim>\<open>DecodeThreadPool\<close> that the threads share, the two buffer pools, the
  device slots, and a program counter for every thread; a step runs one thread from one
  blocking point to the next. The code between two blocking points of a thread runs under
  a mutex (or touches what no other thread touches meanwhile), so it is one atomic step; a
  wait on a condition variable is a step that is enabled when its loop condition is false
  and the mutex it reacquires is free, or when the flag that makes the thread return from the
  wait is set (a wait may return at any time). Condition variables hold no state; the pools
  count the notifications.

  At this level a minibatch is a list of items: \<open>'e\<close> is an encoded item (datum and target),
  \<open>'d\<close> a decoded one, \<open>'v\<close> a minibatch as the device holds it (transposed). What
  \<^verbatim>\<open>transform\<close> does to the bytes of an item is the subject of the sections above.
\<close>

subsection \<open>BufferPool\<close>

text \<open>
  Modelled from the spec: \<^verbatim>\<open>BufferPool\<close> (buffer.hpp is not among the sources). A bounded
  circular queue of \<open>S\<close> tuples with a read cursor, a write cursor and a count:
  \<^verbatim>\<open>advanceWritePos\<close> increments the write cursor mod \<open>S\<close> and the count, \<^verbatim>\<open>advanceReadPos\<close>
  is symmetric, \<^verbatim>\<open>empty\<close> and \<^verbatim>\<open>full\<close> are predicates on the count, \<^verbatim>\<open>getForWrite\<close> and
  \<^verbatim>\<open>getForRead\<close> return the tuple at the cursor, \<^verbatim>\<open>signalNonEmpty\<close> and \<^verbatim>\<open>signalNonFull\<close>
  notify a condition variable.
\<close>

record 'a BufferPool =
  bp_bufs :: "'a list"
  bp_readPos :: nat
  bp_writePos :: nat
  bp_used :: int
  bp_nonEmptySignals :: nat
  bp_nonFullSignals :: nat

definition new_BufferPool :: "nat \<Rightarrow> 'a \<Rightarrow> 'a BufferPool" where
  "new_BufferPool S x = \<lparr>bp_bufs = replicate S x, bp_readPos = 0, bp_writePos = 0, bp_used = 0,
     bp_nonEmptySignals = 0, bp_nonFullSignals = 0\<rparr>"

definition pool_empty :: "'a BufferPool \<Rightarrow> bool" where
  "pool_empty p \<longleftrightarrow> bp_used p = 0"

definition pool_full :: "'a BufferPool \<Rightarrow> bool" where
  "pool_full p \<longleftrightarrow> bp_used p = int (length (bp_bufs p))"

definition getForWrite :: "'a BufferPool \<Rightarrow> 'a" where
  "getForWrite p = bp_bufs p ! bp_writePos p"

definition getForRead :: "'a BufferPool \<Rightarrow> 'a" where
  "getForRead p = bp_bufs p ! bp_readPos p"

definition advanceWritePos :: "'a BufferPool \<Rightarrow> 'a BufferPool" where
  "advanceWritePos p =
     p\<lparr>bp_writePos := (bp_writePos p + 1) mod length (bp_bufs p), bp_used := bp_used p + 1\<rparr>"

definition advanceReadPos :: "'a BufferPool \<Rightarrow> 'a BufferPool" where
  "advanceReadPos p =
     p\<lparr>bp_readPos := (bp_readPos p + 1) mod length (bp_bufs p), bp_used := bp_used p - 1\<rparr>"

definition signalNonEmpty :: "'a BufferPool \<Rightarrow> 'a BufferPool" where
  "signalNonEmpty p = p\<lparr>bp_nonEmptySignals := bp_nonEmptySignals p + 1\<rparr>"

definition signalNonFull :: "'a BufferPool \<Rightarrow> 'a BufferPool" where
  "signalNonFull p = p\<lparr>bp_nonFullSignals := bp_nonFullSignals p + 1\<rparr>"

text \<open>Writing through the reference that \<^verbatim>\<open>getForWrite\<close> returns.\<close>

definition putForWrite :: "'a \<Rightarrow> 'a BufferPool \<Rightarrow> 'a BufferPool" where
  "putForWrite x p = p\<lparr>bp_bufs := (bp_bufs p)[bp_writePos p := x]\<rparr>"

subsection \<open>Configuration and state\<close>

text \<open>
  What is fixed for a run: the layout, the sizes of the two pools, the number of iterations
  of the trainer loop (\<^verbatim>\<open>minibatchCount\<close> of \<^verbatim>\<open>multi\<close>), and the collaborators.
  \<open>cfg_reader k\<close> is what the \<open>k\<close>-th successful call of \<^verbatim>\<open>reader.read\<close> would deliver, \<open>None\<close>
  when that call returns -1 (the reader is deterministic). \<open>cfg_xform wid\<close> is the transform
  of the media instance of worker \<open>wid\<close>, \<open>cfg_transpose\<close> is \<^verbatim>\<open>Matrix::transpose\<close> followed by
  the copy to the device, \<open>cfg_fill\<close> the initial content of a decode buffer.
\<close>

record ('e, 'd, 'v) cfg =
  cfg_batchSize :: int
  cfg_count :: int
  cfg_readSlots :: nat
  cfg_decodeSlots :: nat
  cfg_minibatchCount :: nat
  cfg_reader :: "nat \<Rightarrow> 'e list option"
  cfg_xform :: "nat \<Rightarrow> 'e \<Rightarrow> 'd"
  cfg_transpose :: "'d list \<Rightarrow> 'v"
  cfg_fill :: 'd

text \<open>
  Where the manager stands in \<^verbatim>\<open>consume\<close>/\<^verbatim>\<open>produce\<close>: outside or waiting for a filled read
  slot (\<open>M_idle\<close>); holding the mutex of the read pool and waiting for a free decode slot
  (\<open>M_in\<close>); holding both mutexes and waiting for the workers (\<open>M_barrier\<close>); copying to the
  device (\<open>M_copy\<close>); back in \<^verbatim>\<open>consume\<close> after \<^verbatim>\<open>produce\<close>, holding the mutex of the read pool
  (\<open>M_release\<close>).
\<close>

datatype manager_pc = M_idle | M_in | M_barrier | M_copy | M_release

text \<open>
  Where a worker stands in \<^verbatim>\<open>work\<close>: waiting for its start signal, in the item loop, or
  about to report completion.
\<close>

datatype worker_pc = W_wait | W_decode | W_signal

text \<open>
  Where the trainer stands in the loop of \<^verbatim>\<open>multi\<close>: about to call \<^verbatim>\<open>next()\<close>, waiting inside
  \<^verbatim>\<open>next()\<close> for a minibatch, reading the device slot after \<^verbatim>\<open>next()\<close> returned, or past
  the loop.
\<close>

datatype trainer_pc = T_next | T_wait | T_read | T_done

text \<open>
  Where the thread that calls \<^verbatim>\<open>DecodeThreadPool::stop\<close> stands: it has not called it, it is
  in the first loop (waiting for the workers), in the second loop (waiting for the manager),
  or it has returned.
\<close>

datatype stop_pc = S_idle | S_workers | S_manager | S_done

text \<open>
  \<open>reads\<close> is the position of the reader (its successful reads). \<open>fatal\<close> records the
  exception of \<^verbatim>\<open>ReadThread::produce\<close>, \<open>assert_failed\<close> a failed assertion or a null
  \<^verbatim>\<open>_inputBuf\<close>. A device slot is \<open>None\<close> before the first copy and while a copy is under
  way. \<open>published\<close> counts the minibatches produced; no step reads it. \<open>pool_done\<close> is the
  field \<^verbatim>\<open>_done\<close> of the decode pool, \<open>workerStopped\<close> its \<^verbatim>\<open>_stopped\<close>; a worker or a manager
  that is marked stopped has left its thread function.
\<close>

record ('e, 'd, 'v) sys =
  readBufs :: "'e list BufferPool"
  decodeBufs :: "'d list BufferPool"
  reads :: nat
  rt_done :: bool
  fatal :: bool
  startSignaled :: "int list"
  endSignaled :: int
  inputBuf :: "nat option"
  bufferIndex :: int
  managerPc :: manager_pc
  workerPc :: "worker_pc list"
  device :: "'v option list"
  first :: bool
  trainerPc :: trainer_pc
  trainer_i :: nat
  observed :: "'v option list"
  assert_failed :: bool
  published :: nat
  pool_done :: bool
  stopManager :: bool
  managerStopped :: bool
  workerStopped :: "bool list"
  stopPc :: stop_pc

text \<open>
  The state \<^verbatim>\<open>Loader::start\<close> leaves when no allocation fails: \<^verbatim>\<open>_first = true\<close>, two empty
  pools, the constructor's initial values of \<^verbatim>\<open>DecodeThreadPool\<close>, every thread at the top
  of its loop (\<^verbatim>\<open>Device::init\<close> returned 0).
\<close>

definition sys_init :: "('e, 'd, 'v) cfg \<Rightarrow> ('e, 'd, 'v) sys" where
  "sys_init c =
     \<lparr>readBufs = new_BufferPool (cfg_readSlots c) [],
      decodeBufs = new_BufferPool (cfg_decodeSlots c)
         (replicate (nat (cfg_batchSize c)) (cfg_fill c)),
      reads = 0, rt_done = False, fatal = False,
      startSignaled = replicate (nat (cfg_count c)) 0, endSignaled = 0,
      inputBuf = None, bufferIndex = 0, managerPc = M_idle,
      workerPc = replicate (nat (cfg_count c)) W_wait,
      device = [None, None],
      first = True,
      trainerPc = (if 0 < cfg_minibatchCount c then T_next else T_done),
      trainer_i = 0, observed = [], assert_failed = False, published = 0,
      pool_done = False, stopManager = False, managerStopped = False,
      workerStopped = replicate (nat (cfg_count c)) False, stopPc = S_idle\<rparr>"

subsection \<open>ReadThread::produce\<close>

text \<open>
  Blocked while the read pool is full or its mutex is held (by the manager, from the end of
  its wait in \<^verbatim>\<open>consume\<close> to the end of \<^verbatim>\<open>consume\<close>). A failed read sets \<^verbatim>\<open>_done\<close> and
  throws before \<^verbatim>\<open>advanceWritePos\<close>. The thread runs \<^verbatim>\<open>while (_done == false) work(id)\<close>.
\<close>

definition ReadThread_produce :: "('e, 'd, 'v) cfg \<Rightarrow> ('e, 'd, 'v) sys \<Rightarrow> ('e, 'd, 'v) sys option" where
  "ReadThread_produce c s =
     (if rt_done s \<or> fatal s \<or> managerPc s \<noteq> M_idle \<or> pool_full (readBufs s) then None
      else case cfg_reader c (reads s) of
        None \<Rightarrow> Some (s\<lparr>rt_done := True, fatal := True\<rparr>)
      | Some bufs \<Rightarrow>
          Some (s\<lparr>readBufs := signalNonEmpty (advanceWritePos (putForWrite bufs (readBufs s))),
                  reads := reads s + 1\<rparr>))"

subsection \<open>DecodeThreadPool: the manager (\<^verbatim>\<open>consume\<close>, \<^verbatim>\<open>produce\<close>)\<close>

text \<open>
  The loop of \<^verbatim>\<open>manage\<close> and \<^verbatim>\<open>consume\<close> up to the call of \<^verbatim>\<open>produce\<close>. The manager that
  finds \<^verbatim>\<open>_stopManager\<close> set, at the test of \<^verbatim>\<open>while (_stopManager == false)\<close> or when its
  wait in \<^verbatim>\<open>consume\<close> returns, leaves \<^verbatim>\<open>manage\<close> and sets \<^verbatim>\<open>_managerStopped\<close> (the test and the
  entry of \<^verbatim>\<open>consume\<close> are one step). Otherwise it waits for a filled read slot and pins it.
\<close>

definition consume_begin :: "('e, 'd, 'v) sys \<Rightarrow> ('e, 'd, 'v) sys option" where
  "consume_begin s =
     (if managerPc s \<noteq> M_idle then None
      else if stopManager s then Some (s\<lparr>managerStopped := True\<rparr>)
      else if \<not> pool_empty (readBufs s)
      then Some (s\<lparr>inputBuf := Some (bp_readPos (readBufs s)), managerPc := M_in\<rparr>)
      else None)"

text \<open>\<^verbatim>\<open>produce\<close>: wait for a free decode slot, set every start signal to 1, notify.\<close>

definition produce_signal :: "('e, 'd, 'v) sys \<Rightarrow> ('e, 'd, 'v) sys option" where
  "produce_signal s =
     (if managerPc s = M_in \<and> \<not> pool_full (decodeBufs s)
      then Some (s\<lparr>startSignaled := map (\<lambda>x. 1) (startSignaled s), managerPc := M_barrier\<rparr>)
      else None)"

text \<open>
  \<^verbatim>\<open>produce\<close>: leave \<^verbatim>\<open>while (_endSignaled < _count)\<close>, reset the counter; the copy to device
  slot \<^verbatim>\<open>_bufferIndex\<close> begins.
\<close>

definition produce_collect :: "('e, 'd, 'v) cfg \<Rightarrow> ('e, 'd, 'v) sys \<Rightarrow> ('e, 'd, 'v) sys option" where
  "produce_collect c s =
     (if managerPc s = M_barrier \<and> \<not> endSignaled s < cfg_count c
      then Some (s\<lparr>endSignaled := 0,
                   device := (device s)[nat (bufferIndex s) := None],
                   managerPc := M_copy\<rparr>)
      else None)"

text \<open>
  \<^verbatim>\<open>produce\<close>: the copy of the transposed minibatch is complete, \<^verbatim>\<open>_bufferIndex\<close> flips, the
  decode slot is published.
\<close>

definition produce_publish :: "('e, 'd, 'v) cfg \<Rightarrow> ('e, 'd, 'v) sys \<Rightarrow> ('e, 'd, 'v) sys option" where
  "produce_publish c s =
     (if managerPc s = M_copy
      then Some (s\<lparr>device := (device s)[nat (bufferIndex s) :=
                               Some (cfg_transpose c (getForWrite (decodeBufs s)))],
                   bufferIndex := (if bufferIndex s = 0 then 1 else 0),
                   decodeBufs := signalNonEmpty (advanceWritePos (decodeBufs s)),
                   published := published s + 1,
                   managerPc := M_release\<rparr>)
      else None)"

text \<open>\<^verbatim>\<open>consume\<close> after \<^verbatim>\<open>produce\<close>: release the read slot.\<close>

definition consume_end :: "('e, 'd, 'v) sys \<Rightarrow> ('e, 'd, 'v) sys option" where
  "consume_end s =
     (if managerPc s = M_release
      then Some (s\<lparr>readBufs := signalNonFull (advanceReadPos (readBufs s)), managerPc := M_idle\<rparr>)
      else None)"

text \<open>The thread function \<^verbatim>\<open>manage\<close>; no step once it has returned.\<close>

definition manage :: "('e, 'd, 'v) cfg \<Rightarrow> ('e, 'd, 'v) sys \<Rightarrow> ('e, 'd, 'v) sys option" where
  "manage c s =
     (if managerStopped s then None
      else case managerPc s of
        M_idle \<Rightarrow> consume_begin s
      | M_in \<Rightarrow> produce_signal s
      | M_barrier \<Rightarrow> produce_collect c s
      | M_copy \<Rightarrow> produce_publish c s
      | M_release \<Rightarrow> consume_end s)"

subsection \<open>DecodeThreadPool: a worker (\<^verbatim>\<open>work\<close>)\<close>

text \<open>
  The item loop of \<^verbatim>\<open>work(id)\<close> on lists of items; \<open>None\<close> is the failure of
  \<^verbatim>\<open>assert(encDatum != 0)\<close> or a write outside the decode buffer.
\<close>

function decode_loop ::
  "(nat \<Rightarrow> 'e \<Rightarrow> 'd) \<Rightarrow> nat \<Rightarrow> 'e list \<Rightarrow> int \<Rightarrow> int \<Rightarrow> 'd list \<Rightarrow> 'd list option" where
  "decode_loop xf wid src i end dst =
     (if i < end then
        (if 0 \<le> i \<and> nat i < length src \<and> nat i < length dst
         then decode_loop xf wid src (i + 1) end (dst[nat i := xf wid (src ! nat i)])
         else None)
      else Some dst)"
  by pat_completeness auto
termination
  by (relation "measure (\<lambda>(xf, wid, src, i, e, dst). nat (e - i))") auto

declare decode_loop.simps [simp del]

text \<open>
  The loop \<^verbatim>\<open>while (_done == false) work(id)\<close> of \<^verbatim>\<open>run\<close> and the wait of \<^verbatim>\<open>work\<close>. The worker
  that finds \<^verbatim>\<open>_done\<close> set, at the test of the loop of \<^verbatim>\<open>run\<close> or when \<^verbatim>\<open>_started.wait\<close> returns
  (\<^verbatim>\<open>if (_done == true) return;\<close>), leaves \<^verbatim>\<open>work\<close> without touching its start signal, leaves
  the loop and sets \<^verbatim>\<open>_stopped[id]\<close> (the test and the entry of \<^verbatim>\<open>work\<close> are one step).
  Otherwise it waits for its start signal and consumes it.
\<close>

definition work_start :: "nat \<Rightarrow> ('e, 'd, 'v) sys \<Rightarrow> ('e, 'd, 'v) sys option" where
  "work_start wid s =
     (if pool_done s then Some (s\<lparr>workerStopped := (workerStopped s)[wid := True]\<rparr>)
      else if startSignaled s ! wid \<noteq> 0
      then Some (s\<lparr>startSignaled := (startSignaled s)[wid := startSignaled s ! wid - 1],
                   workerPc := (workerPc s)[wid := W_decode],
                   assert_failed := (assert_failed s \<or> startSignaled s ! wid - 1 \<noteq> 0)\<rparr>)
      else None)"

text \<open>
  Decode the items \<^verbatim>\<open>_startInds[id]\<close> to \<^verbatim>\<open>_endInds[id]\<close> of \<^verbatim>\<open>*_inputBuf\<close> into the tuple at the
  write cursor of the decode pool. The workers write without a lock; the step is atomic
  here, which agrees with the code as long as the ranges of the workers are disjoint.
\<close>

definition work_items_step :: "('e, 'd, 'v) cfg \<Rightarrow> nat \<Rightarrow> ('e, 'd, 'v) sys \<Rightarrow> ('e, 'd, 'v) sys option" where
  "work_items_step c wid s =
     (case inputBuf s of
        None \<Rightarrow> Some (s\<lparr>assert_failed := True\<rparr>)
      | Some ib \<Rightarrow>
         (case decode_loop (cfg_xform c) wid (bp_bufs (readBufs s) ! ib)
                 (run_startInd (cfg_batchSize c) (cfg_count c) (int wid))
                 (run_endInd (cfg_batchSize c) (cfg_count c) (int wid))
                 (getForWrite (decodeBufs s)) of
            None \<Rightarrow> Some (s\<lparr>assert_failed := True\<rparr>)
          | Some dst \<Rightarrow>
              Some (s\<lparr>decodeBufs := putForWrite dst (decodeBufs s),
                      workerPc := (workerPc s)[wid := W_signal]\<rparr>)))"

text \<open>Report completion: \<^verbatim>\<open>_endSignaled++; assert(_endSignaled <= _count);\<close>\<close>

definition work_end :: "('e, 'd, 'v) cfg \<Rightarrow> nat \<Rightarrow> ('e, 'd, 'v) sys \<Rightarrow> ('e, 'd, 'v) sys option" where
  "work_end c wid s =
     Some (s\<lparr>endSignaled := endSignaled s + 1,
             workerPc := (workerPc s)[wid := W_wait],
             assert_failed := (assert_failed s \<or> \<not> endSignaled s + 1 \<le> cfg_count c)\<rparr>)"

text \<open>The thread function of worker \<open>wid\<close>; no step once it has returned.\<close>

definition work :: "('e, 'd, 'v) cfg \<Rightarrow> nat \<Rightarrow> ('e, 'd, 'v) sys \<Rightarrow> ('e, 'd, 'v) sys option" where
  "work c wid s =
     (if wid < length (workerPc s) \<and> wid < length (startSignaled s) \<and>
         wid < length (workerStopped s) \<and> \<not> workerStopped s ! wid then
        (case workerPc s ! wid of
           W_wait \<Rightarrow> work_start wid s
         | W_decode \<Rightarrow> work_items_step c wid s
         | W_signal \<Rightarrow> work_end c wid s)
      else None)"

subsection \<open>Loader::next and the trainer loop of \<^verbatim>\<open>multi\<close>\<close>

text \<open>
  \<^verbatim>\<open>next()\<close> from its call to its first wait (or to its return, when no wait is needed). It
  needs the mutex of the decode pool, which the manager holds from the end of its wait in
  \<^verbatim>\<open>produce\<close> to the end of \<^verbatim>\<open>produce\<close>.
\<close>

definition next_call :: "('e, 'd, 'v) sys \<Rightarrow> ('e, 'd, 'v) sys option" where
  "next_call s =
     (if managerPc s = M_barrier \<or> managerPc s = M_copy then None
      else
        (let bufs = (if first s then decodeBufs s
                     else signalNonFull (advanceReadPos (decodeBufs s)))
         in Some (s\<lparr>first := False, decodeBufs := bufs,
                    trainerPc := (if pool_empty bufs then T_wait else T_read)\<rparr>)))"

text \<open>The end of the wait in \<^verbatim>\<open>while (_decodeBufs->empty()) waitForNonEmpty(lock)\<close>.\<close>

definition next_wake :: "('e, 'd, 'v) sys \<Rightarrow> ('e, 'd, 'v) sys option" where
  "next_wake s =
     (if managerPc s = M_barrier \<or> managerPc s = M_copy \<or> pool_empty (decodeBufs s) then None
      else Some (s\<lparr>trainerPc := T_read\<rparr>))"

text \<open>
  The rest of an iteration of \<^verbatim>\<open>multi\<close>: \<^verbatim>\<open>bufIdx = i % 2\<close>, copy the device slot back, \<open>i++\<close>.
\<close>

definition multi_read :: "('e, 'd, 'v) cfg \<Rightarrow> ('e, 'd, 'v) sys \<Rightarrow> ('e, 'd, 'v) sys option" where
  "multi_read c s =
     Some (s\<lparr>observed := observed s @ [device s ! (trainer_i s mod 2)],
             trainer_i := trainer_i s + 1,
             trainerPc := (if trainer_i s + 1 < cfg_minibatchCount c then T_next else T_done)\<rparr>)"

definition multi :: "('e, 'd, 'v) cfg \<Rightarrow> ('e, 'd, 'v) sys \<Rightarrow> ('e, 'd, 'v) sys option" where
  "multi c s =
     (case trainerPc s of
        T_next \<Rightarrow> next_call s
      | T_wait \<Rightarrow> next_wake s
      | T_read \<Rightarrow> multi_read c s
      | T_done \<Rightarrow> None)"

subsection \<open>Interleavings\<close>

text \<open>
  An event names the thread that runs next; a schedule is a list of events. A step of a
  thread that is blocked is \<open>None\<close>, and so is every step after a failed assertion (the
  process has aborted). These are the interleavings of normal operation: no thread calls
  \<^verbatim>\<open>stop\<close>.
\<close>

datatype event = Reader | Manager | Worker nat | Trainer

definition step :: "('e, 'd, 'v) cfg \<Rightarrow> event \<Rightarrow> ('e, 'd, 'v) sys \<Rightarrow> ('e, 'd, 'v) sys option" where
  "step c ev s =
     (if assert_failed s then None
      else case ev of
        Reader \<Rightarrow> ReadThread_produce c s
      | Manager \<Rightarrow> manage c s
      | Worker wid \<Rightarrow> work c wid s
      | Trainer \<Rightarrow> multi c s)"

fun run :: "('e, 'd, 'v) cfg \<Rightarrow> event list \<Rightarrow> ('e, 'd, 'v) sys \<Rightarrow> ('e, 'd, 'v) sys option" where
  "run c [] s = Some s"
| "run c (ev # evs) s = (case step c ev s of None \<Rightarrow> None | Some s' \<Rightarrow> run c evs s')"

subsection \<open>DecodeThreadPool::stop\<close>

text \<open>
  \<^verbatim>\<open>stop\<close> runs in the thread that calls it and takes no mutex. One step is the call of
  \<^verbatim>\<open>ThreadPool::stop\<close>, or one test of a loop together with the body or the exit that follows:
  \<^verbatim>\<open>while (stopped() == false) { _in.advanceWritePos(); _in.signalNonEmpty(); }\<close>,
  \<^verbatim>\<open>_stopManager = true;\<close>,
  \<^verbatim>\<open>while (_managerStopped == false) { _in.advanceWritePos(); _in.signalNonEmpty();\<close>
  \<^verbatim>\<open>_endSignaled++; _ended.notify_one(); }\<close>.

  Modelled from the spec: \<^verbatim>\<open>ThreadPool::stop\<close> and \<^verbatim>\<open>ThreadPool::stopped\<close> (threadpool.hpp is
  not among the sources). Setting \<^verbatim>\<open>_done\<close> causes the workers to exit \<^verbatim>\<open>work\<close>; the pool is
  stopped when every worker has reported that it has stopped.
\<close>

definition DecodeThreadPool_stop :: "('e, 'd, 'v) sys \<Rightarrow> ('e, 'd, 'v) sys option" where
  "DecodeThreadPool_stop s =
     (case stopPc s of
        S_idle \<Rightarrow> Some (s\<lparr>pool_done := True, stopPc := S_workers\<rparr>)
      | S_workers \<Rightarrow>
          (if list_all (\<lambda>b. b) (workerStopped s)
           then Some (s\<lparr>stopManager := True, stopPc := S_manager\<rparr>)
           else Some (s\<lparr>readBufs := signalNonEmpty (advanceWritePos (readBufs s))\<rparr>))
      | S_manager \<Rightarrow>
          (if managerStopped s then Some (s\<lparr>stopPc := S_done\<rparr>)
           else Some (s\<lparr>readBufs := signalNonEmpty (advanceWritePos (readBufs s)),
                        endSignaled := endSignaled s + 1\<rparr>))
      | S_done \<Rightarrow> None)"

text \<open>
  The interleavings of the pipeline with a thread that calls \<^verbatim>\<open>DecodeThreadPool::stop\<close>
  (\<^verbatim>\<open>Loader::stop\<close> calls it once the read thread has stopped and both pools are empty).
\<close>

datatype stop_event = Pipeline event | Stop

definition step_stop ::
  "('e, 'd, 'v) cfg \<Rightarrow> stop_event \<Rightarrow> ('e, 'd, 'v) sys \<Rightarrow> ('e, 'd, 'v) sys option" where
  "step_stop c ev s =
     (case ev of
        Pipeline e \<Rightarrow> step c e s
      | Stop \<Rightarrow> (if assert_failed s then None else DecodeThreadPool_stop s))"

fun run_stop ::
  "('e, 'd, 'v) cfg \<Rightarrow> stop_event list \<Rightarrow> ('e, 'd, 'v) sys \<Rightarrow> ('e, 'd, 'v) sys option" where
  "run_stop c [] s = Some s"
| "run_stop c (ev # evs) s =
     (case step_stop c ev s of None \<Rightarrow> None | Some s' \<Rightarrow> run_stop c evs s')"

text \<open>The single-threaded decode of the \<open>k\<close>-th minibatch, as \<^verbatim>\<open>single\<close> computes it
  with one media instance, in the layout of the device.\<close>

definition single :: "('e, 'd, 'v) cfg \<Rightarrow> nat \<Rightarrow> 'v" where
  "single c k = cfg_transpose c (map (cfg_xform c 0) (the (cfg_reader c k)))"

text \<open>One round of a schedule in which the threads take turns, for any number of workers.\<close>

definition round_robin :: "nat \<Rightarrow> event list" where
  "round_robin n =
     [Reader, Manager, Trainer, Manager] @
     concat (map (\<lambda>wid. [Worker wid, Worker wid, Worker wid]) [0..<n]) @
     [Manager, Manager, Manager, Trainer, Trainer]"

text \<open>A small instance: two items per minibatch, one worker, two slots per pool.\<close>

definition ex_cfg :: "(nat, nat, nat list) cfg" where
  "ex_cfg = \<lparr>cfg_batchSize = 2, cfg_count = 1, cfg_readSlots = 2, cfg_decodeSlots = 2,
     cfg_minibatchCount = 2,
     cfg_reader = (\<lambda>k. Some [10 * k, 10 * k + 1]),
     cfg_xform = (\<lambda>wid x. x + 100),
     cfg_transpose = (\<lambda>xs. xs),
     cfg_fill = 0\<rparr>"

subsection \<open>Well-formed configurations and the invariant of the pipeline\<close>

text \<open>
  What the statements about the pipeline assume of a configuration: a batch size and a
  worker count that pass the assertions of the constructor of \<^verbatim>\<open>DecodeThreadPool\<close>, a read
  pool of at least one slot, a decode pool of one or two slots (the device has two), a
  reader that delivers \<open>batchSize\<close> items with every successful read, and media instances
  that compute the same function for every worker.
\<close>

definition cfg_ok :: "('e, 'd, 'v) cfg \<Rightarrow> bool" where
  "cfg_ok c \<longleftrightarrow>
     1 \<le> cfg_batchSize c \<and> 1 \<le> cfg_count c \<and>
     ctor_asserts (cfg_batchSize c) (cfg_count c) \<and>
     1 \<le> cfg_readSlots c \<and> 1 \<le> cfg_decodeSlots c \<and> cfg_decodeSlots c \<le> 2 \<and>
     (\<forall>k bufs. cfg_reader c k = Some bufs \<longrightarrow> int (length bufs) = cfg_batchSize c) \<and>
     (\<forall>wid. int wid < cfg_count c \<longrightarrow> cfg_xform c wid = cfg_xform c 0)"

text \<open>
  The minibatches the trainer has released (\<^verbatim>\<open>next()\<close> releases the previous minibatch, so
  the call number \<open>i\<close> has released \<open>i\<close> of them once it is past its first part), and the
  minibatches the manager has taken out of the read pool.
\<close>

definition released :: "('e, 'd, 'v) sys \<Rightarrow> nat" where
  "released s =
     (if trainerPc s = T_wait \<or> trainerPc s = T_read then trainer_i s else trainer_i s - 1)"

definition consumed :: "('e, 'd, 'v) sys \<Rightarrow> nat" where
  "consumed s = (if managerPc s = M_release then published s - 1 else published s)"

text \<open>A worker has completed the round: its signal is consumed and it waits again.\<close>

definition worker_done :: "int \<times> worker_pc \<Rightarrow> bool" where
  "worker_done x \<longleftrightarrow> fst x = 0 \<and> snd x = W_wait"

definition done_count :: "int list \<Rightarrow> worker_pc list \<Rightarrow> int" where
  "done_count ss ps = int (length (filter worker_done (zip ss ps)))"

text \<open>
  A pool of \<open>S\<close> slots into which \<open>w\<close> tuples have been published and out of which \<open>r\<close>
  have been released.
\<close>

definition pool_inv :: "nat \<Rightarrow> nat \<Rightarrow> nat \<Rightarrow> 'a BufferPool \<Rightarrow> bool" where
  "pool_inv S w r p \<longleftrightarrow>
     length (bp_bufs p) = S \<and> bp_writePos p = w mod S \<and> bp_readPos p = r mod S \<and>
     0 \<le> bp_used p \<and> bp_used p \<le> int S \<and> int w = int r + bp_used p"

definition inv_pools :: "('e, 'd, 'v) cfg \<Rightarrow> ('e, 'd, 'v) sys \<Rightarrow> bool" where
  "inv_pools c s \<longleftrightarrow>
     pool_inv (cfg_readSlots c) (reads s) (consumed s) (readBufs s) \<and>
     pool_inv (cfg_decodeSlots c) (published s) (released s) (decodeBufs s) \<and>
     (\<forall>b \<in> set (bp_bufs (decodeBufs s)). length b = nat (cfg_batchSize c))"

definition inv_manager :: "('e, 'd, 'v) cfg \<Rightarrow> ('e, 'd, 'v) sys \<Rightarrow> bool" where
  "inv_manager c s \<longleftrightarrow>
     bufferIndex s = int (published s mod 2) \<and> length (device s) = 2 \<and>
     (managerPc s = M_release \<longrightarrow> 0 < published s) \<and>
     (managerPc s \<noteq> M_idle \<longrightarrow>
        0 < bp_used (readBufs s) \<and> inputBuf s = Some (bp_readPos (readBufs s))) \<and>
     (managerPc s = M_barrier \<or> managerPc s = M_copy \<longrightarrow>
        bp_used (decodeBufs s) < int (cfg_decodeSlots c))"

definition inv_reader :: "('e, 'd, 'v) cfg \<Rightarrow> ('e, 'd, 'v) sys \<Rightarrow> bool" where
  "inv_reader c s \<longleftrightarrow>
     (\<forall>k. consumed s \<le> k \<and> k < reads s \<longrightarrow>
        (\<exists>bufs. cfg_reader c k = Some bufs \<and>
           bp_bufs (readBufs s) ! (k mod cfg_readSlots c) = bufs))"

text \<open>
  \<^verbatim>\<open>DecodeThreadPool::stop\<close> has not been called: its flags are clear and every thread of the
  pool is inside its thread function.
\<close>

definition not_stopping :: "('e, 'd, 'v) cfg \<Rightarrow> ('e, 'd, 'v) sys \<Rightarrow> bool" where
  "not_stopping c s \<longleftrightarrow>
     \<not> pool_done s \<and> \<not> stopManager s \<and> \<not> managerStopped s \<and>
     workerStopped s = replicate (nat (cfg_count c)) False \<and> stopPc s = S_idle"

definition inv_barrier :: "('e, 'd, 'v) cfg \<Rightarrow> ('e, 'd, 'v) sys \<Rightarrow> bool" where
  "inv_barrier c s \<longleftrightarrow>
     int (length (startSignaled s)) = cfg_count c \<and>
     int (length (workerPc s)) = cfg_count c \<and>
     \<not> assert_failed s \<and>
     (managerPc s \<noteq> M_barrier \<longrightarrow>
        endSignaled s = 0 \<and>
        (\<forall>i < length (workerPc s). startSignaled s ! i = 0 \<and> workerPc s ! i = W_wait)) \<and>
     (managerPc s = M_barrier \<longrightarrow>
        endSignaled s = done_count (startSignaled s) (workerPc s) \<and>
        (\<forall>i < length (workerPc s).
           (startSignaled s ! i = 0 \<or> startSignaled s ! i = 1 \<and> workerPc s ! i = W_wait))) \<and>
     not_stopping c s"

text \<open>
  What the decode buffer under the write cursor holds during a round: the items of every
  worker that is past its item loop, and the whole minibatch once the manager is past the
  barrier.
\<close>

definition inv_decoded :: "('e, 'd, 'v) cfg \<Rightarrow> ('e, 'd, 'v) sys \<Rightarrow> bool" where
  "inv_decoded c s \<longleftrightarrow>
     (managerPc s = M_barrier \<longrightarrow>
        (\<forall>i < length (workerPc s).
           workerPc s ! i = W_signal \<or> worker_done (startSignaled s ! i, workerPc s ! i) \<longrightarrow>
           (\<forall>j \<in> work_items (cfg_batchSize c) (cfg_count c) (int i).
              getForWrite (decodeBufs s) ! nat j =
                cfg_xform c 0 (the (cfg_reader c (consumed s)) ! nat j)))) \<and>
     (managerPc s = M_copy \<longrightarrow>
        getForWrite (decodeBufs s) = map (cfg_xform c 0) (the (cfg_reader c (consumed s))))"

text \<open>
  The device holds the last two minibatches produced, minibatch \<open>k\<close> in slot \<open>k mod 2\<close>; while
  a copy is under way, the last one.
\<close>

definition inv_device :: "('e, 'd, 'v) cfg \<Rightarrow> ('e, 'd, 'v) sys \<Rightarrow> bool" where
  "inv_device c s \<longleftrightarrow>
     (\<forall>k. k < published s \<and> published s \<le> k + (if managerPc s = M_copy then 1 else 2) \<longrightarrow>
        device s ! (k mod 2) = Some (single c k))"

definition inv_trainer :: "('e, 'd, 'v) cfg \<Rightarrow> ('e, 'd, 'v) sys \<Rightarrow> bool" where
  "inv_trainer c s \<longleftrightarrow>
     (first s \<longleftrightarrow> trainer_i s = 0 \<and> (trainerPc s = T_next \<or> trainerPc s = T_done)) \<and>
     (trainerPc s = T_read \<longrightarrow> trainer_i s < published s) \<and>
     (trainerPc s = T_next \<or> trainerPc s = T_done \<longrightarrow> trainer_i s \<le> published s) \<and>
     (trainerPc s = T_done \<longrightarrow> trainer_i s = cfg_minibatchCount c) \<and>
     (trainerPc s \<noteq> T_done \<longrightarrow> trainer_i s < cfg_minibatchCount c) \<and>
     observed s = map (\<lambda>k. Some (single c k)) [0..<trainer_i s]"

definition inv :: "('e, 'd, 'v) cfg \<Rightarrow> ('e, 'd, 'v) sys \<Rightarrow> bool" where
  "inv c s \<longleftrightarrow>
     inv_pools c s \<and> inv_manager c s \<and> inv_reader c s \<and> inv_barrier c s \<and>
     inv_decoded c s \<and> inv_device c s \<and> inv_trainer c s"

subsection \<open>States of the round-robin schedule\<close>

text \<open>
  The state between two rounds of the round-robin schedule: \<open>k\<close> minibatches have gone
  through every stage.
\<close>

definition quiet :: "('e, 'd, 'v) cfg \<Rightarrow> nat \<Rightarrow> ('e, 'd, 'v) sys \<Rightarrow> bool" where
  "quiet c k s \<longleftrightarrow>
     inv c s \<and> managerPc s = M_idle \<and> \<not> rt_done s \<and> \<not> fatal s \<and>
     reads s = k \<and> published s = k \<and> trainer_i s = k \<and>
     trainerPc s = (if k < cfg_minibatchCount c then T_next else T_done)"

text \<open>The state inside a round, while the workers \<open>0, \<dots>, j - 1\<close> have completed.\<close>

definition working :: "('e, 'd, 'v) cfg \<Rightarrow> nat \<Rightarrow> nat \<Rightarrow> ('e, 'd, 'v) sys \<Rightarrow> bool" where
  "working c k j s \<longleftrightarrow>
     inv c s \<and> managerPc s = M_barrier \<and> \<not> rt_done s \<and> \<not> fatal s \<and>
     reads s = Suc k \<and> published s = k \<and> trainer_i s = k \<and> trainerPc s = T_wait \<and>
     (\<forall>i < length (workerPc s).
        if i < j then startSignaled s ! i = 0 \<and> workerPc s ! i = W_wait
        else startSignaled s ! i = 1 \<and> workerPc s ! i = W_wait)"


subsection \<open>The part of the state that belongs to the read thread\<close>

text \<open>What only the read thread changes.\<close>

definition reader_view :: "('e, 'd, 'v) sys \<Rightarrow> bool \<times> bool \<times> nat \<times> nat \<times> 'e list list" where
  "reader_view s =
     (rt_done s, fatal s, reads s, bp_writePos (readBufs s), bp_bufs (readBufs s))"


text \<open>A reader that fails on its second call.\<close>

definition ex_cfg_fail :: "(nat, nat, nat list) cfg" where
  "ex_cfg_fail = ex_cfg\<lparr>cfg_reader := (\<lambda>k. if k < 1 then Some [10 * k, 10 * k + 1] else None)\<rparr>"


section \<open>The facade: Loader::start, stop and reset\<close>

text \<open>
  The facade is sequential: the fields of \<^verbatim>\<open>Loader\<close> and what its methods do to them. A
  pointer field is an option, \<open>None\<close> for the null pointer. A buffer pool is kept as the
  arguments of its constructor (data size, target size, meta size, pinned), a thread object
  together with the flag whether its threads have been spawned. The sizes are mathematical
  integers (no overflow of the products).
\<close>

record Loader =
  ld_first :: bool
  ld_batchSize :: int
  ld_datumSize :: int
  ld_datumTypeSize :: int
  ld_targetSize :: int
  ld_targetTypeSize :: int
  ld_targetConversion :: int
  ld_readBufs :: "(int \<times> int \<times> int \<times> bool) option"
  ld_decodeBufs :: "(int \<times> int \<times> int \<times> bool) option"
  ld_readThread :: "bool option"
  ld_decodeThreads :: "(DecodeThreadPool \<times> bool) option"
  ld_device_is_CPU :: bool
  ld_reader_pos :: nat

text \<open>
  What a call depends on besides the fields. \<open>env_alloc n\<close> says whether the \<open>n\<close>-th place of
  \<^verbatim>\<open>start\<close> that allocates memory succeeds (otherwise \<^verbatim>\<open>std::bad_alloc\<close> is thrown there):
  \<^item> 0: \<^verbatim>\<open>new BufferPool(dataLen / 8, targetLen, metaLen)\<close>,
  \<^item> 1: \<^verbatim>\<open>new ReadThread(*_readBufs, _reader)\<close>,
  \<^item> 2: \<^verbatim>\<open>new BufferPool(dataLen, targetLen, metaLen, pinned)\<close>,
  \<^item> 3: the memory of the \<^verbatim>\<open>DecodeThreadPool\<close> object and its base class,
  \<^item> 4: the body of the constructor of \<^verbatim>\<open>DecodeThreadPool\<close> (\<^verbatim>\<open>new Media*[count]\<close>,
    \<^verbatim>\<open>Media::create\<close>, the \<^verbatim>\<open>push_back\<close> calls), after its assertions,
  \<^item> 5: \<^verbatim>\<open>DecodeThreadPool::start\<close> (\<^verbatim>\<open>new thread\<close>, \<^verbatim>\<open>push_back\<close>),
  \<^item> 6: \<^verbatim>\<open>_readThread->start()\<close>.

  \<open>env_numCores\<close> is the value of \<^verbatim>\<open>thread::hardware_concurrency()\<close>; \<open>env_threads_stop\<close> says
  whether the waiting loops of \<^verbatim>\<open>stop\<close> end (the threads report that they have stopped and
  the pools drain).
\<close>

record env =
  env_alloc :: "nat \<Rightarrow> bool"
  env_numCores :: int
  env_threads_stop :: bool

text \<open>
  How a call can fail to return a value: a division by zero, a failed assertion of the
  constructor of \<^verbatim>\<open>DecodeThreadPool\<close>, a null pointer dereferenced by \<^verbatim>\<open>stop\<close>, a wait that
  never ends, a \<^verbatim>\<open>std::bad_alloc\<close> thrown outside the \<^verbatim>\<open>try\<close> block of \<^verbatim>\<open>start\<close>.
\<close>

datatype fault = DivByZero | AssertFailed | NullPointer | Hang | Uncaught_bad_alloc

text \<open>The allocations inside the \<^verbatim>\<open>try\<close> block of \<^verbatim>\<open>start\<close> all succeed.\<close>

definition try_allocs_ok :: "env \<Rightarrow> bool" where
  "try_allocs_ok e \<longleftrightarrow>
     env_alloc e 0 \<and> env_alloc e 1 \<and> env_alloc e 2 \<and> env_alloc e 3 \<and> env_alloc e 4"

text \<open>The fields of the \<^verbatim>\<open>DecodeThreadPool\<close> that \<^verbatim>\<open>start\<close> constructs.\<close>

definition new_DecodeThreadPool :: "Loader \<Rightarrow> int \<Rightarrow> DecodeThreadPool" where
  "new_DecodeThreadPool l threadCount =
     \<lparr>dt_count = threadCount, dt_batchSize = ld_batchSize l,
      dt_datumSize = ld_datumSize l, dt_datumTypeSize = ld_datumTypeSize l,
      dt_targetSize = ld_targetSize l, dt_targetTypeSize = ld_targetTypeSize l,
      dt_targetConversion = ld_targetConversion l\<rparr>"

text \<open>
  \<^verbatim>\<open>Loader::start\<close>. The assignments inside the \<^verbatim>\<open>try\<close> block take effect one by one; the
  handler of \<^verbatim>\<open>std::bad_alloc\<close> is \<^verbatim>\<open>return -1;\<close> and nothing else. The threads are started
  after the block: the decode threads by \<^verbatim>\<open>DecodeThreadPool::start\<close>, and

  Modelled from the spec: \<^verbatim>\<open>ThreadPool::start\<close>, which \<^verbatim>\<open>_readThread->start()\<close> calls
  (threadpool.hpp is not among the sources): it starts the read thread.
\<close>

definition start :: "env \<Rightarrow> Loader \<Rightarrow> fault + (int \<times> Loader)" where
  "start e l =
     (let l0 = l\<lparr>ld_first := True\<rparr>;
          dataLen = ld_batchSize l * ld_datumSize l * ld_datumTypeSize l;
          targetLen = ld_batchSize l * ld_targetSize l * ld_targetTypeSize l;
          metaLen = 2 * ld_batchSize l
      in if \<not> env_alloc e 0 then Inr (- 1, l0)
      else let l1 = l0\<lparr>ld_readBufs := Some (c_div dataLen 8, targetLen, metaLen, False)\<rparr>
      in if \<not> env_alloc e 1 then Inr (- 1, l1)
      else let l2 = l1\<lparr>ld_readThread := Some False\<rparr>;
               pinned = (\<not> ld_device_is_CPU l)
      in if \<not> env_alloc e 2 then Inr (- 1, l2)
      else let l3 = l2\<lparr>ld_decodeBufs := Some (dataLen, targetLen, metaLen, pinned)\<rparr>;
               numCores = env_numCores e
      in if numCores = 0 then Inl DivByZero
      else if c_div (ld_batchSize l - 1) numCores + 1 = 0 then Inl DivByZero
      else let threadCount = start_threadCount (ld_batchSize l) numCores
      in if \<not> env_alloc e 3 then Inr (- 1, l3)
      else if threadCount = 0 then Inl DivByZero
      else if \<not> ctor_asserts (ld_batchSize l) threadCount then Inl AssertFailed
      else if \<not> env_alloc e 4 then Inr (- 1, l3)
      else let l4 = l3\<lparr>ld_decodeThreads := Some (new_DecodeThreadPool l threadCount, False)\<rparr>
      in if \<not> env_alloc e 5 then Inl Uncaught_bad_alloc
      else let l5 = l4\<lparr>ld_decodeThreads := Some (new_DecodeThreadPool l threadCount, True)\<rparr>
      in if \<not> env_alloc e 6 then Inl Uncaught_bad_alloc
      else let l6 = l5\<lparr>ld_readThread := Some True\<rparr>
      in Inr (0, l6))"

text \<open>The four handles are installed (not null).\<close>

definition installed :: "Loader \<Rightarrow> bool" where
  "installed l \<longleftrightarrow>
     ld_readBufs l \<noteq> None \<and> ld_readThread l \<noteq> None \<and>
     ld_decodeBufs l \<noteq> None \<and> ld_decodeThreads l \<noteq> None"

text \<open>The read thread, or the threads of the decode pool, have been spawned.\<close>

definition read_thread_spawned :: "Loader \<Rightarrow> bool" where
  "read_thread_spawned l \<longleftrightarrow> ld_readThread l = Some True"

definition decode_threads_spawned :: "Loader \<Rightarrow> bool" where
  "decode_threads_spawned l \<longleftrightarrow> map_option snd (ld_decodeThreads l) = Some True"

text \<open>
  The specification's words for the state after a failed \<^verbatim>\<open>start\<close>: no partially constructed
  pools or stages are left installed in the facade.
\<close>

definition spec_no_partial_state :: "Loader \<Rightarrow> bool" where
  "spec_no_partial_state l \<longleftrightarrow>
     ld_readBufs l = None \<and> ld_readThread l = None \<and>
     ld_decodeBufs l = None \<and> ld_decodeThreads l = None"

text \<open>
  \<^verbatim>\<open>Loader::stop\<close>: stop the read thread, drain until it has stopped and both pools are empty,
  stop the decode pool, delete the four objects and null the handles. Every handle is
  dereferenced on the way.
\<close>

definition stopped :: "Loader \<Rightarrow> Loader" where
  "stopped l = l\<lparr>ld_readBufs := None, ld_readThread := None,
                 ld_decodeBufs := None, ld_decodeThreads := None\<rparr>"

definition stop :: "env \<Rightarrow> Loader \<Rightarrow> fault + Loader" where
  "stop e l =
     (if \<not> installed l then Inl NullPointer
      else if \<not> env_threads_stop e then Inl Hang
      else Inr (stopped l))"

text \<open>
  \<^verbatim>\<open>Loader::reset\<close>: \<^verbatim>\<open>stop(); _reader->reset(); start(); return 0;\<close>

  Modelled from the spec: \<^verbatim>\<open>Reader::reset\<close> (reader.hpp is not among the sources), which
  rewinds to the first item.
\<close>

definition reset :: "env \<Rightarrow> Loader \<Rightarrow> fault + (int \<times> Loader)" where
  "reset e l =
     (case stop e l of
        Inl f \<Rightarrow> Inl f
      | Inr l1 \<Rightarrow>
         (case start e (l1\<lparr>ld_reader_pos := 0\<rparr>) of
            Inl f \<Rightarrow> Inl f
          | Inr (r, l2) \<Rightarrow> Inr (0, l2)))"

text \<open>
  A loader as its constructor leaves it (the sizes of the test), an environment in which
  every allocation succeeds and one in which the buffers of the decode pool cannot be
  allocated.
\<close>

definition ex_loader :: Loader where
  "ex_loader = \<lparr>ld_first = True, ld_batchSize = 128, ld_datumSize = 3072, ld_datumTypeSize = 1,
     ld_targetSize = 1, ld_targetTypeSize = 4, ld_targetConversion = 1,
     ld_readBufs = None, ld_decodeBufs = None, ld_readThread = None, ld_decodeThreads = None,
     ld_device_is_CPU = True, ld_reader_pos = 0\<rparr>"

definition ex_env :: env where
  "ex_env = \<lparr>env_alloc = (\<lambda>n. True), env_numCores = 8, env_threads_stop = True\<rparr>"

definition ex_env_fail :: env where
  "ex_env_fail = \<lparr>env_alloc = (\<lambda>n. n \<noteq> 2), env_numCores = 8, env_threads_stop = True\<rparr>"

text \<open>An environment in which \<^verbatim>\<open>DecodeThreadPool::start\<close> cannot allocate a thread object.\<close>

definition ex_env_spawn_fail :: env where
  "ex_env_spawn_fail =
     \<lparr>env_alloc = (\<lambda>n. n \<noteq> 5), env_numCores = 8, env_threads_stop = True\<rparr>"

text \<open>The state \<^verbatim>\<open>start\<close> leaves when the third allocation fails on \<open>ex_loader\<close>.\<close>

definition ex_partial :: Loader where
  "ex_partial = ex_loader\<lparr>ld_readBufs := Some (49152, 512, 256, False),
                           ld_readThread := Some False\<rparr>"

text \<open>The running loader that \<^verbatim>\<open>start\<close> leaves on \<open>ex_loader\<close> when every allocation succeeds.\<close>

definition ex_running :: Loader where
  "ex_running = ex_loader\<lparr>ld_readBufs := Some (49152, 512, 256, False),
     ld_decodeBufs := Some (393216, 512, 256, False), ld_readThread := Some True,
     ld_decodeThreads := Some (new_DecodeThreadPool ex_loader 8, True)\<rparr>"

section \<open>Properties\<close>

subsection \<open>Arithmetic of the partition\<close>

lemma c_div_nonneg: "0 \<le> a \<Longrightarrow> 0 < b \<Longrightarrow> c_div a b = a div b"
  by (cases "a = 0") (simp_all add: c_div_def)

lemma neg_div_ceil:
  fixes B n :: int
  assumes "1 \<le> n"
  shows "- ((- B) div n) = (B - 1) div n + 1"
proof -
  define q where "q = (B - 1) div n"
  define r where "r = (B - 1) mod n"
  have r: "0 \<le> r" "r < n" using assms by (simp_all add: r_def)
  have B: "B = q * n + r + 1" by (simp add: q_def r_def)
  have "- B = (- (q + 1)) * n + (n - r - 1)" by (simp add: B algebra_simps)
  moreover have "0 \<le> n - r - 1" "n - r - 1 < n" using r by simp_all
  ultimately have "(- B) div n = - (q + 1)"
    by (metis add.commute div_mult_self1 div_pos_pos_trivial add.right_neutral assms not_one_le_zero)
  then show ?thesis by (simp add: q_def)
qed

lemma ceil_as_div:
  fixes B n :: int
  assumes "1 \<le> n"
  shows "\<lceil>real_of_int B / real_of_int n\<rceil> = (B - 1) div n + 1"
  by (simp add: ceiling_divide_eq_div neg_div_ceil [OF assms])

lemma div_bounds:
  fixes a b q :: int
  assumes "0 < b" "q * b \<le> a" "a < (q + 1) * b"
  shows "a div b = q"
proof -
  have "a = q * b + (a - q * b)" by simp
  moreover have "0 \<le> a - q * b" "a - q * b < b" using assms by (simp_all add: algebra_simps)
  ultimately show ?thesis
    by (metis add.commute add.right_neutral assms(1) div_mult_self1 div_pos_pos_trivial less_irrefl)
qed

lemma ipt_eq: "1 \<le> B \<Longrightarrow> 1 \<le> N \<Longrightarrow> ctor_itemsPerThread B N = (B - 1) div N + 1"
  by (simp add: ctor_itemsPerThread_def c_div_nonneg)

lemma ipt_pos: "1 \<le> B \<Longrightarrow> 1 \<le> N \<Longrightarrow> 1 \<le> ctor_itemsPerThread B N"
  by (simp add: ipt_eq pos_imp_zdiv_nonneg_iff)

lemma ipt_le: "1 \<le> B \<Longrightarrow> 1 \<le> N \<Longrightarrow> ctor_itemsPerThread B N \<le> B"
proof -
  assume a: "1 \<le> B" "1 \<le> N"
  have "(B - 1) div N \<le> (B - 1) div 1" using a by (intro zdiv_mono2) simp_all
  then show ?thesis using a by (simp add: ipt_eq)
qed

lemma ipt_cover:
  assumes "1 \<le> B" "1 \<le> N"
  shows "B \<le> ctor_itemsPerThread B N * N"
proof -
  have "B - 1 = (B - 1) div N * N + (B - 1) mod N" by simp
  moreover have "(B - 1) mod N < N" using assms by simp
  ultimately have "B - 1 < (B - 1) div N * N + N" by linarith
  then show ?thesis using assms by (simp add: ipt_eq algebra_simps)
qed

lemma work_items_inner:
  assumes "wid \<noteq> N - 1"
  shows "work_items B N wid =
    {wid * ctor_itemsPerThread B N ..< (wid + 1) * ctor_itemsPerThread B N}"
  using assms
  by (simp add: work_items_def run_startInd_def run_endInd_def run_itemCount_def algebra_simps)

lemma work_items_last:
  "work_items B N (N - 1) = {(N - 1) * ctor_itemsPerThread B N ..< B}"
  by (simp add: work_items_def run_startInd_def run_endInd_def run_itemCount_def)

lemma run_endInd_last: "run_endInd B N (N - 1) = B"
  by (simp add: run_startInd_def run_endInd_def run_itemCount_def)

lemma work_items_spec:
  assumes "1 \<le> B" "1 \<le> N" "ctor_asserts B N" "0 \<le> wid" "wid < N"
  shows "work_items B N wid =
    {wid * ctor_itemsPerThread B N ..< min ((wid + 1) * ctor_itemsPerThread B N) B}"
proof (cases "wid = N - 1")
  case True
  have "B \<le> ctor_itemsPerThread B N * N" using assms by (simp add: ipt_cover)
  then have "min ((wid + 1) * ctor_itemsPerThread B N) B = B"
    using True by (simp add: mult.commute)
  then show ?thesis using True by (simp add: work_items_last)
next
  case False
  then have "wid + 1 \<le> N - 1" using assms by simp
  moreover have "0 \<le> ctor_itemsPerThread B N" using ipt_pos [OF assms(1,2)] by simp
  ultimately have "(wid + 1) * ctor_itemsPerThread B N \<le> (N - 1) * ctor_itemsPerThread B N"
    by (rule mult_right_mono)
  also have "\<dots> < B" using assms(3) by (simp add: ctor_asserts_def mult.commute)
  finally have "min ((wid + 1) * ctor_itemsPerThread B N) B = (wid + 1) * ctor_itemsPerThread B N"
    by simp
  then show ?thesis using False by (simp add: work_items_inner)
qed

lemma work_items_disjoint:
  assumes "1 \<le> B" "1 \<le> N" "0 \<le> a" "a < b" "b < N"
  shows "work_items B N a \<inter> work_items B N b = {}"
proof -
  have an: "a \<noteq> N - 1" using assms by simp
  have p: "0 \<le> ctor_itemsPerThread B N" using ipt_pos [OF assms(1,2)] by simp
  have "a + 1 \<le> b" using assms by simp
  then have "(a + 1) * ctor_itemsPerThread B N \<le> b * ctor_itemsPerThread B N"
    using p by (rule mult_right_mono)
  then have "run_endInd B N a \<le> run_startInd B N b"
    using an by (simp add: run_startInd_def run_endInd_def run_itemCount_def algebra_simps)
  then show ?thesis by (auto simp: work_items_def)
qed

lemma work_items_union:
  assumes "1 \<le> B" "1 \<le> N" "ctor_asserts B N"
  shows "(\<Union>wid\<in>{0..<N}. work_items B N wid) = {0..<B}"
proof (intro set_eqI iffI)
  fix x assume "x \<in> (\<Union>wid\<in>{0..<N}. work_items B N wid)"
  then obtain wid where w: "0 \<le> wid" "wid < N" "x \<in> work_items B N wid" by auto
  have p: "0 \<le> ctor_itemsPerThread B N" using ipt_pos [OF assms(1,2)] by simp
  have "0 \<le> wid * ctor_itemsPerThread B N" using w p by simp
  then show "x \<in> {0..<B}"
    using w work_items_spec [OF assms w(1,2)] by auto
next
  fix x assume x: "x \<in> {0..<B}"
  define i where "i = ctor_itemsPerThread B N"
  have p: "1 \<le> i" using ipt_pos [OF assms(1,2)] by (simp add: i_def)
  show "x \<in> (\<Union>wid\<in>{0..<N}. work_items B N wid)"
  proof (cases "x < (N - 1) * i")
    case True
    define w where "w = x div i"
    have w0: "0 \<le> w" using x p by (simp add: w_def pos_imp_zdiv_nonneg_iff)
    have e: "x = w * i + x mod i" by (simp add: w_def)
    have m: "0 \<le> x mod i" "x mod i < i" using p by simp_all
    have lo: "w * i \<le> x" using e m by linarith
    have hi: "x < (w + 1) * i" using e m by (simp add: algebra_simps)
    have wN: "w < N - 1"
    proof (rule ccontr)
      assume "\<not> w < N - 1"
      then have "N - 1 \<le> w" by simp
      then have "(N - 1) * i \<le> w * i" using p by (intro mult_right_mono) simp_all
      with lo True show False by simp
    qed
    have "w \<noteq> N - 1" using wN by simp
    then have "x \<in> work_items B N w"
      using lo hi by (simp add: work_items_inner i_def)
    then show ?thesis using w0 wN by force
  next
    case False
    then have "x \<in> work_items B N (N - 1)" using x by (simp add: work_items_last i_def)
    then show ?thesis using assms(2) by force
  qed
qed

lemma start_threadCount_eq:
  assumes "1 \<le> B" "1 \<le> hc"
  shows "start_threadCount B hc = (B - 1) div ((B - 1) div hc + 1) + 1"
proof -
  define i where "i = (B - 1) div hc + 1"
  have i: "1 \<le> i" using assms by (simp add: i_def pos_imp_zdiv_nonneg_iff)
  have "(B - 1) div i \<le> (B - 1) div 1" using assms i by (intro zdiv_mono2) simp_all
  then have "(B - 1) div i + 1 \<le> B" by simp
  then show ?thesis using assms i
    by (simp add: start_threadCount_def Let_def c_div_nonneg i_def [symmetric])
qed

lemma start_threadCount_props:
  assumes "1 \<le> B" "1 \<le> hc"
  defines "N \<equiv> start_threadCount B hc"
  defines "i \<equiv> (B - 1) div hc + 1"
  shows "1 \<le> N" "N \<le> B" "N \<le> hc" "(B - 1) div N + 1 = i"
    "\<And>M. 1 \<le> M \<Longrightarrow> M < N \<Longrightarrow> i < (B - 1) div M + 1"
    "i * (N - 1) < B" "B \<le> i * N"
proof -
  have i: "1 \<le> i" using assms(1,2) by (simp add: i_def pos_imp_zdiv_nonneg_iff)
  have N: "N = (B - 1) div i + 1"
    using assms(1,2) by (simp add: N_def i_def start_threadCount_eq)
  show N1: "1 \<le> N" using assms(1,2) i by (simp add: N pos_imp_zdiv_nonneg_iff)
  have "(B - 1) div i \<le> (B - 1) div 1" using assms(1,2) i by (intro zdiv_mono2) simp_all
  then show "N \<le> B" by (simp add: N)
  have ihc: "B \<le> i * hc"
    using ipt_cover [OF assms(1,2)] assms(1,2) by (simp add: ipt_eq i_def)
  have "(B - 1) div hc * hc + (B - 1) mod hc = B - 1" by simp
  moreover have "0 \<le> (B - 1) mod hc" using assms(2) by simp
  ultimately have "(B - 1) div hc * hc \<le> B - 1" by linarith
  then have lowhc: "(i - 1) * hc \<le> B - 1" by (simp add: i_def)
  define q where "q = (B - 1) div i"
  define r where "r = (B - 1) mod i"
  have e: "B - 1 = q * i + r" by (simp add: q_def r_def)
  have m: "0 \<le> r" "r < i" using i by (simp_all add: r_def)
  have Nq: "N = q + 1" by (simp add: N q_def)
  have lowN: "(N - 1) * i \<le> B - 1" using e m unfolding Nq by simp
  have "B \<le> q * i + i" using e m by linarith
  then have hiN: "B \<le> N * i" unfolding Nq by (simp add: algebra_simps)
  show Nhc: "N \<le> hc"
  proof (rule ccontr)
    assume "\<not> N \<le> hc"
    then have "hc \<le> N - 1" by simp
    then have "hc * i \<le> (N - 1) * i" using i by (intro mult_right_mono) simp_all
    with lowN ihc show False by (simp add: mult.commute)
  qed
  have "(i - 1) * N \<le> (i - 1) * hc" using Nhc i by (intro mult_left_mono) simp_all
  with lowhc have "(i - 1) * N \<le> B - 1" by simp
  moreover have "B - 1 < (i - 1 + 1) * N" using hiN by (simp add: mult.commute)
  ultimately have "(B - 1) div N = i - 1" using N1 by (intro div_bounds) simp_all
  then show "(B - 1) div N + 1 = i" by simp
  show "i * (N - 1) < B" using lowN by (simp add: mult.commute)
  show "B \<le> i * N" using hiN by (simp add: mult.commute)
  show "i < (B - 1) div M + 1" if M: "1 \<le> M" "M < N" for M
  proof -
    have "M \<le> N - 1" using M by simp
    then have "M * i \<le> (N - 1) * i" using i by (intro mult_right_mono) simp_all
    with lowN have "i * M \<le> B - 1" by (simp add: mult.commute)
    then have "i \<le> (B - 1) div M" using M
      by (metis less_le_trans mult.commute pos_imp_zdiv_nonneg_iff zdiv_mono1 zero_less_one
          nonzero_mult_div_cancel_right less_irrefl)
    then show ?thesis by simp
  qed
qed

lemma start_threadCount_asserts:
  assumes "1 \<le> B" "1 \<le> hc"
  shows "ctor_asserts B (start_threadCount B hc)"
proof -
  note p = start_threadCount_props [OF assms]
  have "ctor_itemsPerThread B (start_threadCount B hc) = (B - 1) div hc + 1"
    using p(1,4) assms(1) by (simp add: ipt_eq)
  then show ?thesis using p(6,7) by (simp add: ctor_asserts_def)
qed

subsection \<open>Partition coverage\<close>

text \<open>
  Claim C2, as stated: for every \<open>B \<ge> 1\<close> and \<open>N \<ge> 1\<close> the ranges of the workers are
  inside \<open>[0, B)\<close> and cover it. With \<open>B = 5\<close> and \<open>N = 4\<close> the constructor computes
  \<open>itemsPerThread = 2\<close>, and \<^verbatim>\<open>run(2)\<close> gives worker 2 the range \<open>[4, 6)\<close>: it owns
  item 5, which is not an item of the minibatch. (The second assertion of the constructor,
  \<open>2 * 3 < 5\<close>, rejects this pair.)
\<close>

theorem C2_partition_counterexample:
  "ctor_itemsPerThread 5 4 = 2 \<and> run_startInd 5 4 2 = 4 \<and> run_endInd 5 4 2 = 6 \<and>
   (5::int) \<in> work_items 5 4 2 \<and> (5::int) \<notin> {0..<5} \<and> \<not> ctor_asserts 5 4"
  by (simp add: work_items_def run_startInd_def run_endInd_def run_itemCount_def
      ctor_itemsPerThread_def ctor_asserts_def c_div_def)

text \<open>
  Claim C2, amended: for every \<open>B \<ge> 1\<close> and \<open>N \<ge> 1\<close> that pass the assertions of the
  constructor, worker \<open>wid\<close> owns \<open>[wid * itemsPerThread, min ((wid + 1) * itemsPerThread) B)\<close>
  with \<open>itemsPerThread = ceil (B / N)\<close>, the ranges are pairwise disjoint, their union is
  \<open>[0, B)\<close>, and the range of worker \<open>N - 1\<close> ends at \<open>B\<close>.
\<close>

theorem C2_partition_coverage:
  assumes "1 \<le> B" and "1 \<le> N" and "ctor_asserts B N"
  shows "ctor_itemsPerThread B N = \<lceil>real_of_int B / real_of_int N\<rceil> \<and>
    (\<forall>wid. 0 \<le> wid \<and> wid < N \<longrightarrow>
       work_items B N wid =
         {wid * ctor_itemsPerThread B N ..< min ((wid + 1) * ctor_itemsPerThread B N) B}) \<and>
    (\<forall>a b. 0 \<le> a \<and> a < b \<and> b < N \<longrightarrow> work_items B N a \<inter> work_items B N b = {}) \<and>
    (\<Union>wid\<in>{0..<N}. work_items B N wid) = {0..<B} \<and>
    run_endInd B N (N - 1) = B"
proof (intro conjI allI impI)
  show "ctor_itemsPerThread B N = \<lceil>real_of_int B / real_of_int N\<rceil>"
    using assms(1,2) by (simp add: ipt_eq ceil_as_div)
  show "work_items B N wid =
      {wid * ctor_itemsPerThread B N ..< min ((wid + 1) * ctor_itemsPerThread B N) B}"
    if "0 \<le> wid \<and> wid < N" for wid
    using that assms by (simp add: work_items_spec)
  show "work_items B N a \<inter> work_items B N b = {}" if "0 \<le> a \<and> a < b \<and> b < N" for a b
    using that assms(1,2) by (simp add: work_items_disjoint)
  show "(\<Union>wid\<in>{0..<N}. work_items B N wid) = {0..<B}"
    using assms by (rule work_items_union)
  show "run_endInd B N (N - 1) = B"
    by (rule run_endInd_last)
qed

theorem C2_partition_coverage_witness:
  "(1::int) \<le> 7 \<and> (1::int) \<le> 3 \<and> ctor_asserts 7 3 \<and>
   work_items 7 3 0 = {0..<3} \<and> work_items 7 3 1 = {3..<6} \<and> work_items 7 3 2 = {6..<7} \<and>
   (\<Union>wid\<in>{0..<3}. work_items 7 3 wid) = {0..<7}"
proof -
  have a: "ctor_asserts 7 3"
    by (simp add: ctor_asserts_def ctor_itemsPerThread_def c_div_def)
  have i: "ctor_itemsPerThread 7 3 = 3"
    by (simp add: ctor_itemsPerThread_def c_div_def)
  have t: "(1::int) \<le> 7" "(1::int) \<le> 3" by simp_all
  note cov = C2_partition_coverage [OF t a]
  have u: "(\<Union>wid\<in>{0..<3}. work_items 7 3 wid) = {0..<7}" using cov by blast
  have r: "\<And>wid. 0 \<le> wid \<Longrightarrow> wid < 3 \<Longrightarrow>
      work_items 7 3 wid = {wid * 3 ..< min ((wid + 1) * 3) 7}"
    using cov unfolding i by blast
  show ?thesis using a u r [of 0] r [of 1] r [of 2] by simp
qed

subsection \<open>The number of decode workers\<close>

text \<open>
  Claim C4, as stated: \<open>N = min(B, ceil(B / hardware_concurrency()))\<close>. With \<open>B = 128\<close> on
  8 cores \<^verbatim>\<open>Loader::start\<close> computes \<open>itemsPerThread = 16\<close> and \<open>threadCount = 8\<close>, while
  the formula gives 16.
\<close>

theorem C4_threadCount_counterexample:
  "start_threadCount 128 8 = 8 \<and> spec_threadCount 128 8 = 16"
  by (simp add: start_threadCount_def spec_threadCount_def c_div_def)

text \<open>
  Claim C4, amended: for every \<open>B \<ge> 1\<close> and \<open>hardware_concurrency() \<ge> 1\<close>,
  \<^verbatim>\<open>Loader::start\<close> chooses \<open>N = min(B, ceil(B / ceil(B / hc)))\<close>; this is the smallest
  \<open>N \<ge> 1\<close> for which \<open>ceil(B / N)\<close> items per worker equal \<open>ceil(B / hc)\<close>, it exceeds
  neither \<open>B\<close> nor \<open>hc\<close>, and it passes the assertions of the pool's constructor.
\<close>

theorem C4_threadCount:
  assumes "1 \<le> B" and "1 \<le> hc"
  shows "start_threadCount B hc =
      min B \<lceil>real_of_int B / real_of_int \<lceil>real_of_int B / real_of_int hc\<rceil>\<rceil> \<and>
    1 \<le> start_threadCount B hc \<and> start_threadCount B hc \<le> B \<and>
    start_threadCount B hc \<le> hc \<and>
    \<lceil>real_of_int B / real_of_int (start_threadCount B hc)\<rceil> = \<lceil>real_of_int B / real_of_int hc\<rceil> \<and>
    (\<forall>M. 1 \<le> M \<and> M < start_threadCount B hc \<longrightarrow>
       \<lceil>real_of_int B / real_of_int hc\<rceil> < \<lceil>real_of_int B / real_of_int M\<rceil>) \<and>
    ctor_asserts B (start_threadCount B hc)"
proof -
  note p = start_threadCount_props [OF assms]
  have i: "1 \<le> (B - 1) div hc + 1" using assms by (simp add: pos_imp_zdiv_nonneg_iff)
  have c1: "\<lceil>real_of_int B / real_of_int hc\<rceil> = (B - 1) div hc + 1"
    by (rule ceil_as_div [OF assms(2)])
  have c2: "\<lceil>real_of_int B / real_of_int ((B - 1) div hc + 1)\<rceil> =
      (B - 1) div ((B - 1) div hc + 1) + 1"
    by (rule ceil_as_div [OF i])
  have c3: "\<lceil>real_of_int B / real_of_int (start_threadCount B hc)\<rceil> =
      (B - 1) div start_threadCount B hc + 1"
    by (rule ceil_as_div [OF p(1)])
  have e: "start_threadCount B hc = (B - 1) div ((B - 1) div hc + 1) + 1"
    using assms by (rule start_threadCount_eq)
  have "start_threadCount B hc =
      min B \<lceil>real_of_int B / real_of_int \<lceil>real_of_int B / real_of_int hc\<rceil>\<rceil>"
    unfolding c1 c2 using p(2) e by simp
  moreover have "\<lceil>real_of_int B / real_of_int (start_threadCount B hc)\<rceil> =
      \<lceil>real_of_int B / real_of_int hc\<rceil>"
    unfolding c1 c3 using p(4) by simp
  moreover have "\<forall>M. 1 \<le> M \<and> M < start_threadCount B hc \<longrightarrow>
       \<lceil>real_of_int B / real_of_int hc\<rceil> < \<lceil>real_of_int B / real_of_int M\<rceil>"
    unfolding c1 using p(5) by (simp add: ceil_as_div del: of_int_add)
  ultimately show ?thesis
    using p(1,2,3) start_threadCount_asserts [OF assms] by blast
qed

theorem C4_threadCount_witness:
  "(1::int) \<le> 128 \<and> (1::int) \<le> 8 \<and> start_threadCount 128 8 = 8 \<and>
   start_threadCount 128 8 \<le> 8 \<and> ctor_asserts 128 (start_threadCount 128 8)"
proof -
  have t: "(1::int) \<le> 128" "(1::int) \<le> 8" by simp_all
  have "start_threadCount 128 8 = 8" by (simp add: start_threadCount_def c_div_def)
  then show ?thesis using t C4_threadCount [OF t] by blast
qed

subsection \<open>The raw target copy of one worker\<close>

lemma mult_slot_le:
  fixes i B l :: int
  assumes "0 \<le> i" "i < B" "0 \<le> l"
  shows "i * l + l \<le> B * l" "0 \<le> i * l"
proof -
  have "(i + 1) * l \<le> B * l" using assms by (intro mult_right_mono) simp_all
  then show "i * l + l \<le> B * l" by (simp add: algebra_simps)
  show "0 \<le> i * l" using assms by simp
qed

lemma media_transform_ok:
  assumes "sized p dst" "0 \<le> i" "i < dt_batchSize p"
    and "length (fst (media wid encDatum encDatumLen (dt_datumLen p))) = nat (dt_datumLen p)"
  shows "\<exists>dst1. media_transform media wid encDatum encDatumLen (i * dt_datumLen p) (dt_datumLen p) i dst
      = Some dst1 \<and> sized p dst1 \<and> bt_targets dst1 = bt_targets dst \<and>
      (\<forall>j. j \<noteq> nat i \<longrightarrow> bt_meta dst1 ! j = bt_meta dst ! j)"
proof -
  obtain decoded scalar where m: "media wid encDatum encDatumLen (dt_datumLen p) = (decoded, scalar)"
    by (cases "media wid encDatum encDatumLen (dt_datumLen p)")
  have len: "length decoded = nat (dt_datumLen p)" using assms(4) m by simp
  note b = mult_slot_le [OF assms(2,3), of "dt_datumLen p"]
  have s: "0 \<le> dt_datumLen p" "int (length (bt_data dst)) = dt_batchSize p * dt_datumLen p"
    "int (length (bt_meta dst)) = 2 * dt_batchSize p"
    using assms(1) by (simp_all add: sized_def)
  have fit: "nat (i * dt_datumLen p) + nat (dt_datumLen p) \<le> length (bt_data dst)"
    using b s by linarith
  have mi: "nat i < length (bt_meta dst)" using s assms(2,3) by linarith
  show ?thesis
    using m len fit mi s b assms(1,2)
    by (cases scalar) (auto simp: media_transform_def memcpy_def store_int_def sized_def)
qed

lemma splice_memset:
  fixes xs src :: "'a list"
  assumes "a + tlen \<le> length xs" "n \<le> length src" "n \<le> tlen"
  defines "t1 \<equiv> take a xs @ take n src @ drop (a + n) xs"
  shows "take (a + n) t1 @ replicate (tlen - n) z @ drop (a + n + (tlen - n)) t1
       = take a xs @ (take n src @ replicate (tlen - n) z) @ drop (a + tlen) xs"
  using assms(1-3) unfolding t1_def by (simp add: min_absorb2 add.commute)

lemma transform_meta_ok:
  assumes sz: "sized p dst" and i: "0 \<le> i" "i < dt_batchSize p"
    and med: "length (fst (media wid encDatum encDatumLen (dt_datumLen p))) = nat (dt_datumLen p)"
    and len: "0 \<le> encTargetLen" "nat encTargetLen \<le> length encTarget"
  shows "\<exists>dst'. transform_meta media p wid encDatum encDatumLen encTarget encTargetLen
        (i * dt_datumLen p) (i * dt_targetLen p) i dst = Some dst' \<and> sized p dst' \<and>
      bt_targets dst' = take (nat (i * dt_targetLen p)) (bt_targets dst) @
         pad_target p encTarget encTargetLen @
         drop (nat (i * dt_targetLen p) + nat (dt_targetLen p)) (bt_targets dst) \<and>
      bt_meta dst' ! nat (dt_batchSize p + i) = min encTargetLen (dt_targetLen p) \<and>
      (\<forall>j. j \<noteq> nat i \<and> j \<noteq> nat (dt_batchSize p + i) \<longrightarrow> bt_meta dst' ! j = bt_meta dst ! j)"
proof -
  have "\<exists>dst1. media_transform media wid encDatum encDatumLen (i * dt_datumLen p)
        (dt_datumLen p) i dst = Some dst1 \<and> sized p dst1 \<and> bt_targets dst1 = bt_targets dst \<and>
      (\<forall>j. j \<noteq> nat i \<longrightarrow> bt_meta dst1 ! j = bt_meta dst ! j)"
    using sz i med by (rule media_transform_ok)
  then obtain dst1 where d1: "media_transform media wid encDatum encDatumLen (i * dt_datumLen p)
        (dt_datumLen p) i dst = Some dst1"
    and s1: "sized p dst1" and t1: "bt_targets dst1 = bt_targets dst"
    and m1: "\<forall>j. j \<noteq> nat i \<longrightarrow> bt_meta dst1 ! j = bt_meta dst ! j"
    by blast
  define tlen where "tlen = dt_targetLen p"
  define n where "n = min encTargetLen tlen"
  define xs where "xs = bt_targets dst"
  have tl0: "0 \<le> tlen" and lx: "int (length xs) = dt_batchSize p * tlen"
    and lm: "int (length (bt_meta dst1)) = 2 * dt_batchSize p"
    using sz s1 by (simp_all add: sized_def tlen_def xs_def)
  note b = mult_slot_le [OF i tl0]
  have n0: "0 \<le> n" "n \<le> tlen" "nat n \<le> length encTarget" using len tl0 by (simp_all add: n_def)
  have fit: "nat (i * tlen) + nat tlen \<le> length xs" using b lx tl0 by linarith
  have nfit: "nat (i * tlen) + nat n \<le> length xs" using fit n0 by linarith
  have clamp: "(if encTargetLen > tlen then tlen else encTargetLen) = n" by (simp add: n_def)
  define u1 where "u1 = take (nat (i * tlen)) xs @ take (nat n) encTarget @ drop (nat (i * tlen) + nat n) xs"
  have cp: "memcpy xs (i * tlen) encTarget n = Some u1"
    using b n0 nfit by (simp add: memcpy_def u1_def)
  have lu1: "length u1 = length xs" using nfit n0 by (simp add: u1_def)
  define u2 where "u2 = take (nat (i * tlen)) xs @ (take (nat n) encTarget @ replicate (nat tlen - nat n) 0)
      @ drop (nat (i * tlen) + nat tlen) xs"
  have sp: "take (nat (i * tlen) + nat n) u1 @ replicate (nat tlen - nat n) 0 @
        drop (nat (i * tlen) + nat n + (nat tlen - nat n)) u1 = u2"
    unfolding u1_def u2_def using fit n0 by (intro splice_memset) simp_all
  have ms: "(if tlen > n then memset u1 (i * tlen + n) 0 (tlen - n) else Some u1) = Some u2"
  proof (cases "tlen > n")
    case True
    have eq: "nat (i * tlen + n) = nat (i * tlen) + nat n" "nat (tlen - n) = nat tlen - nat n"
      using b n0 by (simp_all add: nat_add_distrib nat_diff_distrib)
    have "nat (i * tlen) + nat n + (nat tlen - nat n) \<le> length u1" using fit n0 lu1 by linarith
    then show ?thesis using True b n0 sp by (simp add: memset_def eq)
  next
    case False
    then have "n = tlen" using n0 by simp
    then show ?thesis using False by (simp add: u1_def u2_def)
  qed
  have pad: "pad_target p encTarget encTargetLen = take (nat n) encTarget @ replicate (nat tlen - nat n) 0"
    using n0 by (simp add: pad_target_def n_def tlen_def nat_diff_distrib)
  have mi: "0 \<le> i + dt_batchSize p" "nat (i + dt_batchSize p) < length (bt_meta dst1)"
    using i lm by linarith+
  have st: "store_int (bt_meta dst1) (i + dt_batchSize p) n
      = Some ((bt_meta dst1)[nat (i + dt_batchSize p) := n])"
    using mi by (simp add: store_int_def)
  have res: "transform_meta media p wid encDatum encDatumLen encTarget encTargetLen
        (i * dt_datumLen p) (i * dt_targetLen p) i dst
      = Some (dst1\<lparr>bt_targets := u2, bt_meta := (bt_meta dst1)[nat (i + dt_batchSize p) := n]\<rparr>)"
    by (simp only: transform_meta_def Let_def d1 option.case t1 xs_def [symmetric]
        tlen_def [symmetric] clamp cp ms st)
  have lu2: "length u2 = length xs" using fit n0 by (simp add: u2_def)
  have "sized p (dst1\<lparr>bt_targets := u2, bt_meta := (bt_meta dst1)[nat (i + dt_batchSize p) := n]\<rparr>)"
    using s1 lu2 by (simp add: sized_def t1 xs_def)
  moreover have "\<forall>j. j \<noteq> nat i \<and> j \<noteq> nat (dt_batchSize p + i) \<longrightarrow>
      ((bt_meta dst1)[nat (i + dt_batchSize p) := n]) ! j = bt_meta dst ! j"
    using m1 by (simp add: add.commute)
  moreover have "((bt_meta dst1)[nat (i + dt_batchSize p) := n]) ! nat (dt_batchSize p + i) = n"
    using mi by (simp add: add.commute)
  ultimately show ?thesis
    using res pad by (simp add: u2_def tlen_def [symmetric] xs_def [symmetric] n_def)
qed

lemma slot_splice:
  fixes xs P :: "'a list"
  assumes "length P = l" "a + l \<le> length xs"
  shows "b + l \<le> a \<Longrightarrow> take l (drop b (take a xs @ P @ drop (a + l) xs)) = take l (drop b xs)"
    and "a + l \<le> b \<Longrightarrow> take l (drop b (take a xs @ P @ drop (a + l) xs)) = take l (drop b xs)"
    and "take l (drop a (take a xs @ P @ drop (a + l) xs)) = P"
proof -
  have la: "length (take a xs) = a" using assms by simp
  show "take l (drop b (take a xs @ P @ drop (a + l) xs)) = take l (drop b xs)" if "b + l \<le> a"
  proof -
    have "take l (drop b (take a xs @ P @ drop (a + l) xs)) = take l (drop b (take a xs))"
      using that la by simp
    also have "\<dots> = take l (drop b xs)"
      using that by (simp add: drop_take min_absorb1)
    finally show ?thesis .
  qed
  show "take l (drop b (take a xs @ P @ drop (a + l) xs)) = take l (drop b xs)" if "a + l \<le> b"
  proof -
    have "drop b (take a xs @ P @ drop (a + l) xs) = drop (b - a - l) (drop (a + l) xs)"
      using that la assms(1) by simp
    also have "\<dots> = drop b xs" using that by simp
    finally show ?thesis by simp
  qed
  show "take l (drop a (take a xs @ P @ drop (a + l) xs)) = P"
    using la assms(1) by simp
qed

lemma target_slot_splice:
  assumes tl0: "0 \<le> dt_targetLen p" and i: "0 \<le> i" "i < dt_batchSize p"
    and j: "0 \<le> j" "j < dt_batchSize p"
    and lx: "int (length (bt_targets dst)) = dt_batchSize p * dt_targetLen p"
    and lP: "length P = nat (dt_targetLen p)"
    and t': "bt_targets dst' = take (nat (i * dt_targetLen p)) (bt_targets dst) @ P @
         drop (nat (i * dt_targetLen p) + nat (dt_targetLen p)) (bt_targets dst)"
  shows "target_slot p j dst' = (if j = i then P else target_slot p j dst)"
proof -
  define l where "l = dt_targetLen p"
  note bi = mult_slot_le [OF i tl0]
  have fit: "nat (i * l) + nat l \<le> length (bt_targets dst)" using bi lx tl0 unfolding l_def by linarith
  consider "j < i" | "j = i" | "i < j" by linarith
  then show ?thesis
  proof cases
    case 1
    then have "(j + 1) * l \<le> i * l" using tl0 by (intro mult_right_mono) (simp_all add: l_def)
    then have "j * l + l \<le> i * l" by (simp add: algebra_simps)
    moreover have "0 \<le> j * l" "0 \<le> l" using j tl0 by (simp_all add: l_def)
    ultimately have "nat (j * l) + nat l \<le> nat (i * l)" by linarith
    then show ?thesis using 1 slot_splice(1) [OF lP [folded l_def] fit]
      by (simp add: target_slot_def t' l_def)
  next
    case 2
    then show ?thesis using slot_splice(3) [OF lP [folded l_def] fit]
      by (simp add: target_slot_def t' l_def)
  next
    case 3
    then have "(i + 1) * l \<le> j * l" using tl0 by (intro mult_right_mono) (simp_all add: l_def)
    then have "i * l + l \<le> j * l" by (simp add: algebra_simps)
    moreover have "0 \<le> i * l" "0 \<le> l" using i tl0 by (simp_all add: l_def)
    ultimately have "nat (i * l) + nat l \<le> nat (j * l)" by linarith
    then show ?thesis using 3 slot_splice(2) [OF lP [folded l_def] fit]
      by (simp add: target_slot_def t' l_def)
  qed
qed

lemma length_pad_target:
  "0 \<le> n \<Longrightarrow> nat n \<le> length enc \<Longrightarrow> 0 \<le> dt_targetLen p
    \<Longrightarrow> length (pad_target p enc n) = nat (dt_targetLen p)"
  by (auto simp: pad_target_def min_def)

lemma work_loop_meta:
  assumes conv: "dt_targetConversion p \<noteq> ext_READ_CONTENTS ext"
    and med: "\<forall>enc n. length (fst (ext_media ext wid enc n (dt_datumLen p))) = nat (dt_datumLen p)"
    and src: "int (length srcData) = dt_batchSize p" "int (length srcTargets) = dt_batchSize p"
    and e: "e \<le> dt_batchSize p"
  shows "sized p dst \<Longrightarrow> 0 \<le> i \<Longrightarrow>
    \<exists>dst'. work_loop ext p wid srcData srcTargets i e
        (i * dt_datumLen p) (i * dt_targetLen p) i dst = Some dst' \<and> sized p dst' \<and>
      (\<forall>j. 0 \<le> j \<and> j < dt_batchSize p \<longrightarrow>
         target_slot p j dst' =
           (if i \<le> j \<and> j < e
            then pad_target p (srcTargets ! nat j) (int (length (srcTargets ! nat j)))
            else target_slot p j dst) \<and>
         bt_meta dst' ! nat (dt_batchSize p + j) =
           (if i \<le> j \<and> j < e
            then min (int (length (srcTargets ! nat j))) (dt_targetLen p)
            else bt_meta dst ! nat (dt_batchSize p + j)))"
proof (induction "nat (e - i)" arbitrary: i dst)
  case 0
  then have ni: "\<not> i < e" by simp
  have wl: "work_loop ext p wid srcData srcTargets i e
        (i * dt_datumLen p) (i * dt_targetLen p) i dst = Some dst"
    using ni by (subst work_loop.simps) simp
  show ?case using "0.prems"(1) wl ni by auto
next
  case (Suc n)
  then have ie: "i < e" by linarith
  have iB: "i < dt_batchSize p" using ie e by simp
  have i0: "0 \<le> i" by fact
  define encTarget where "encTarget = srcTargets ! nat i"
  have gd: "getItem srcData i = Some (srcData ! nat i, int (length (srcData ! nat i)))"
    using i0 iB src by (simp add: getItem_def)
  have gt: "getItem srcTargets i = Some (encTarget, int (length encTarget))"
    using i0 iB src by (simp add: getItem_def encTarget_def)
  have m: "length (fst (ext_media ext wid (srcData ! nat i) (int (length (srcData ! nat i)))
      (dt_datumLen p))) = nat (dt_datumLen p)" using med by blast
  have "\<exists>dst1. transform_meta (ext_media ext) p wid (srcData ! nat i) (int (length (srcData ! nat i)))
        encTarget (int (length encTarget)) (i * dt_datumLen p) (i * dt_targetLen p) i dst = Some dst1 \<and>
      sized p dst1 \<and>
      bt_targets dst1 = take (nat (i * dt_targetLen p)) (bt_targets dst) @
         pad_target p encTarget (int (length encTarget)) @
         drop (nat (i * dt_targetLen p) + nat (dt_targetLen p)) (bt_targets dst) \<and>
      bt_meta dst1 ! nat (dt_batchSize p + i) = min (int (length encTarget)) (dt_targetLen p) \<and>
      (\<forall>j. j \<noteq> nat i \<and> j \<noteq> nat (dt_batchSize p + i) \<longrightarrow> bt_meta dst1 ! j = bt_meta dst ! j)"
    using Suc.prems(1) i0 iB m by (intro transform_meta_ok) simp_all
  then obtain dst1 where
    tr: "transform_meta (ext_media ext) p wid (srcData ! nat i) (int (length (srcData ! nat i)))
        encTarget (int (length encTarget)) (i * dt_datumLen p) (i * dt_targetLen p) i dst = Some dst1"
    and s1: "sized p dst1"
    and t1: "bt_targets dst1 = take (nat (i * dt_targetLen p)) (bt_targets dst) @
         pad_target p encTarget (int (length encTarget)) @
         drop (nat (i * dt_targetLen p) + nat (dt_targetLen p)) (bt_targets dst)"
    and m1: "bt_meta dst1 ! nat (dt_batchSize p + i) = min (int (length encTarget)) (dt_targetLen p)"
    and f1: "\<forall>j. j \<noteq> nat i \<and> j \<noteq> nat (dt_batchSize p + i) \<longrightarrow> bt_meta dst1 ! j = bt_meta dst ! j"
    by blast
  have n: "n = nat (e - (i + 1))" using Suc.hyps(2) by linarith
  have "0 \<le> i + 1" using i0 by simp
  from Suc.hyps(1) [OF n s1 this] obtain dst' where
    wl: "work_loop ext p wid srcData srcTargets (i + 1) e
        ((i + 1) * dt_datumLen p) ((i + 1) * dt_targetLen p) (i + 1) dst1 = Some dst'"
    and s': "sized p dst'"
    and r': "\<forall>j. 0 \<le> j \<and> j < dt_batchSize p \<longrightarrow>
         target_slot p j dst' =
           (if i + 1 \<le> j \<and> j < e
            then pad_target p (srcTargets ! nat j) (int (length (srcTargets ! nat j)))
            else target_slot p j dst1) \<and>
         bt_meta dst' ! nat (dt_batchSize p + j) =
           (if i + 1 \<le> j \<and> j < e
            then min (int (length (srcTargets ! nat j))) (dt_targetLen p)
            else bt_meta dst1 ! nat (dt_batchSize p + j))"
    by blast
  have ptr: "i * dt_datumLen p + dt_datumLen p = (i + 1) * dt_datumLen p"
    "i * dt_targetLen p + dt_targetLen p = (i + 1) * dt_targetLen p"
    by (simp_all add: algebra_simps)
  have step: "work_loop ext p wid srcData srcTargets i e
        (i * dt_datumLen p) (i * dt_targetLen p) i dst = Some dst'"
    by (subst work_loop.simps) (simp add: ie gd gt conv tr ptr wl)
  have tl0: "0 \<le> dt_targetLen p"
    and lx: "int (length (bt_targets dst)) = dt_batchSize p * dt_targetLen p"
    using Suc.prems(1) by (simp_all add: sized_def)
  have lP: "length (pad_target p encTarget (int (length encTarget))) = nat (dt_targetLen p)"
    using tl0 by (intro length_pad_target) simp_all
  have slot1: "target_slot p j dst1 =
      (if j = i then pad_target p encTarget (int (length encTarget)) else target_slot p j dst)"
    if "0 \<le> j" "j < dt_batchSize p" for j
    using tl0 i0 iB that lx lP t1 by (rule target_slot_splice)
  have meta1: "bt_meta dst1 ! nat (dt_batchSize p + j) =
      (if j = i then min (int (length encTarget)) (dt_targetLen p)
       else bt_meta dst ! nat (dt_batchSize p + j))"
    if "0 \<le> j" "j < dt_batchSize p" for j
  proof (cases "j = i")
    case True
    then show ?thesis using m1 by simp
  next
    case False
    have "nat (dt_batchSize p + j) \<noteq> nat i" using that i0 iB by linarith
    moreover have "nat (dt_batchSize p + j) \<noteq> nat (dt_batchSize p + i)"
      using that i0 iB False by linarith
    ultimately show ?thesis using f1 False by simp
  qed
  have "target_slot p j dst' =
           (if i \<le> j \<and> j < e
            then pad_target p (srcTargets ! nat j) (int (length (srcTargets ! nat j)))
            else target_slot p j dst) \<and>
         bt_meta dst' ! nat (dt_batchSize p + j) =
           (if i \<le> j \<and> j < e
            then min (int (length (srcTargets ! nat j))) (dt_targetLen p)
            else bt_meta dst ! nat (dt_batchSize p + j))"
    if j: "0 \<le> j" "j < dt_batchSize p" for j
  proof (cases "j = i")
    case True
    then show ?thesis using r' j slot1 [OF j] meta1 [OF j] ie by (simp add: encTarget_def)
  next
    case False
    then have "(i + 1 \<le> j \<and> j < e) = (i \<le> j \<and> j < e)" by linarith
    then show ?thesis using r' j slot1 [OF j] meta1 [OF j] False by simp
  qed
  then show ?case using step s' by blast
qed

lemma run_bounds:
  assumes "1 \<le> B" "1 \<le> N" "ctor_asserts B N" "0 \<le> w" "w < N"
  shows "0 \<le> run_startInd B N w" "run_endInd B N w \<le> B"
proof -
  have p: "0 \<le> ctor_itemsPerThread B N" using ipt_pos [OF assms(1,2)] by simp
  show "0 \<le> run_startInd B N w" using assms(4) p by (simp add: run_startInd_def)
  show "run_endInd B N w \<le> B"
  proof (cases "w = N - 1")
    case True
    then show ?thesis by (simp add: run_endInd_last)
  next
    case False
    then have "w + 1 \<le> N - 1" using assms(5) by simp
    then have "(w + 1) * ctor_itemsPerThread B N \<le> (N - 1) * ctor_itemsPerThread B N"
      using p by (rule mult_right_mono)
    also have "\<dots> < B" using assms(3) by (simp add: ctor_asserts_def mult.commute)
    finally show ?thesis using False
      by (simp add: run_endInd_def run_startInd_def run_itemCount_def algebra_simps)
  qed
qed

text \<open>
  Claim C3, as stated: the worker records the original (pre-truncation) length of the encoded
  target in \<open>meta[batchSize + i]\<close>. With a target slot of four bytes and an encoded target of
  five bytes the slot receives the first four bytes and \<open>meta[1 + 0]\<close> receives 4, not 5:
  \<^verbatim>\<open>transform\<close> overwrites its parameter \<^verbatim>\<open>encTargetLen\<close> with \<^verbatim>\<open>_targetLen\<close> before storing it.
\<close>

theorem C3_meta_length_counterexample:
  "work_decode ex_ext ex_pool 0 [[1]] [[1, 2, 3, 4, 5]] ex_dst =
     Some \<lparr>bt_data = [7], bt_targets = [1, 2, 3, 4], bt_meta = [0, 4]\<rparr> \<and>
   dt_batchSize ex_pool + 0 = 1 \<and> int (length [1, 2, 3, 4, 5 :: byte]) = 5"
  by (simp add: work_decode_def work_loop.simps getItem_def transform_meta_def media_transform_def
      memcpy_def memset_def store_int_def dt_datumLen_def dt_targetLen_def
      run_startInd_def run_endInd_def run_itemCount_def ctor_itemsPerThread_def c_div_def
      ex_ext_def ex_pool_def ex_dst_def)

text \<open>
  Claim C3, amended: in the path of a target conversion other than \<^verbatim>\<open>READ_CONTENTS\<close>, for
  every item \<open>i\<close> of its range the worker copies the raw encoded target into target slot \<open>i\<close>
  truncated to \<open>targetSize * targetTypeSize\<close> bytes, zero-pads the remainder of the slot when
  the encoded target is shorter, and records in \<open>meta[batchSize + i]\<close> the number of bytes it
  copied, \<open>min (encoded length) (targetSize * targetTypeSize)\<close>. The hypotheses are the
  contract of the collaborators (the media transformer fills a datum slot, the reader delivered
  \<open>batchSize\<close> items), the assertions of the constructor and the sizes of the decode buffers.
\<close>

theorem C3_raw_target_copy:
  assumes "dt_targetConversion p \<noteq> ext_READ_CONTENTS ext"
    and "\<forall>enc n. length (fst (ext_media ext wid enc n (dt_datumLen p))) = nat (dt_datumLen p)"
    and "1 \<le> dt_batchSize p" and "1 \<le> dt_count p"
    and "ctor_asserts (dt_batchSize p) (dt_count p)"
    and "int wid < dt_count p"
    and "int (length srcData) = dt_batchSize p" and "int (length srcTargets) = dt_batchSize p"
    and "sized p dst"
  shows "\<exists>dst'. work_decode ext p wid srcData srcTargets dst = Some dst' \<and>
     (\<forall>i \<in> work_items (dt_batchSize p) (dt_count p) (int wid).
        take (nat (dt_targetLen p)) (drop (nat (i * dt_targetLen p)) (bt_targets dst')) =
          take (nat (min (int (length (srcTargets ! nat i))) (dt_targetLen p))) (srcTargets ! nat i) @
          replicate (nat (dt_targetLen p - min (int (length (srcTargets ! nat i))) (dt_targetLen p))) 0 \<and>
        bt_meta dst' ! nat (dt_batchSize p + i) =
          min (int (length (srcTargets ! nat i))) (dt_targetLen p))"
proof -
  define s where "s = run_startInd (dt_batchSize p) (dt_count p) (int wid)"
  define e where "e = run_endInd (dt_batchSize p) (dt_count p) (int wid)"
  have w0: "0 \<le> int wid" by simp
  have s0: "0 \<le> s" and eB: "e \<le> dt_batchSize p"
    using run_bounds [OF assms(3,4,5) w0 assms(6)] by (simp_all add: s_def e_def)
  from work_loop_meta [OF assms(1,2,7,8) eB assms(9) s0] obtain dst' where
    wl: "work_loop ext p wid srcData srcTargets s e (s * dt_datumLen p) (s * dt_targetLen p) s dst
        = Some dst'"
    and r: "\<forall>j. 0 \<le> j \<and> j < dt_batchSize p \<longrightarrow>
         target_slot p j dst' =
           (if s \<le> j \<and> j < e
            then pad_target p (srcTargets ! nat j) (int (length (srcTargets ! nat j)))
            else target_slot p j dst) \<and>
         bt_meta dst' ! nat (dt_batchSize p + j) =
           (if s \<le> j \<and> j < e
            then min (int (length (srcTargets ! nat j))) (dt_targetLen p)
            else bt_meta dst ! nat (dt_batchSize p + j))"
    by blast
  have wd: "work_decode ext p wid srcData srcTargets dst = Some dst'"
    using wl by (simp add: work_decode_def Let_def s_def e_def)
  have "take (nat (dt_targetLen p)) (drop (nat (i * dt_targetLen p)) (bt_targets dst')) =
          take (nat (min (int (length (srcTargets ! nat i))) (dt_targetLen p))) (srcTargets ! nat i) @
          replicate (nat (dt_targetLen p - min (int (length (srcTargets ! nat i))) (dt_targetLen p))) 0 \<and>
        bt_meta dst' ! nat (dt_batchSize p + i) =
          min (int (length (srcTargets ! nat i))) (dt_targetLen p)"
    if "i \<in> work_items (dt_batchSize p) (dt_count p) (int wid)" for i
  proof -
    have i: "s \<le> i" "i < e" using that by (simp_all add: work_items_def s_def e_def)
    then have "0 \<le> i \<and> i < dt_batchSize p" using s0 eB by simp
    then show ?thesis using r i by (simp add: target_slot_def pad_target_def)
  qed
  then show ?thesis using wd by blast
qed

theorem C3_raw_target_copy_witness:
  "dt_targetConversion ex_pool \<noteq> ext_READ_CONTENTS ex_ext \<and>
   sized ex_pool ex_dst \<and> ctor_asserts (dt_batchSize ex_pool) (dt_count ex_pool) \<and>
   (0::int) \<in> work_items (dt_batchSize ex_pool) (dt_count ex_pool) (int 0) \<and>
   (\<exists>dst'. work_decode ex_ext ex_pool 0 [[1]] [[1, 2]] ex_dst = Some dst' \<and>
      take 4 (bt_targets dst') = [1, 2, 0, 0] \<and> bt_meta dst' ! 1 = 2)"
proof -
  have a: "dt_targetConversion ex_pool \<noteq> ext_READ_CONTENTS ex_ext"
    by (simp add: ex_pool_def ex_ext_def)
  have b: "\<forall>enc n. length (fst (ext_media ex_ext 0 enc n (dt_datumLen ex_pool))) =
      nat (dt_datumLen ex_pool)"
    by (simp add: ex_ext_def)
  have c: "1 \<le> dt_batchSize ex_pool" "1 \<le> dt_count ex_pool" by (simp_all add: ex_pool_def)
  have d: "ctor_asserts (dt_batchSize ex_pool) (dt_count ex_pool)"
    by (simp add: ex_pool_def ctor_asserts_def ctor_itemsPerThread_def c_div_def)
  have e: "int 0 < dt_count ex_pool" by (simp add: ex_pool_def)
  have f: "int (length [[1::byte]]) = dt_batchSize ex_pool"
    "int (length [[1, 2::byte]]) = dt_batchSize ex_pool" by (simp_all add: ex_pool_def)
  have g: "sized ex_pool ex_dst"
    by (simp add: sized_def ex_pool_def ex_dst_def dt_datumLen_def dt_targetLen_def)
  have h: "(0::int) \<in> work_items (dt_batchSize ex_pool) (dt_count ex_pool) (int 0)"
    by (simp add: work_items_def run_startInd_def run_endInd_def run_itemCount_def
        ctor_itemsPerThread_def c_div_def ex_pool_def)
  have tl: "dt_targetLen ex_pool = 4" "dt_batchSize ex_pool = 1"
    by (simp_all add: dt_targetLen_def ex_pool_def)
  let ?T = "[[1, 2 :: byte]]"
  from C3_raw_target_copy [OF a b c d e f g] obtain dst' where
    "work_decode ex_ext ex_pool 0 [[1]] ?T ex_dst = Some dst'"
    and r: "\<forall>i \<in> work_items (dt_batchSize ex_pool) (dt_count ex_pool) (int 0).
        take (nat (dt_targetLen ex_pool)) (drop (nat (i * dt_targetLen ex_pool)) (bt_targets dst')) =
          take (nat (min (int (length (?T ! nat i))) (dt_targetLen ex_pool))) (?T ! nat i) @
          replicate (nat (dt_targetLen ex_pool - min (int (length (?T ! nat i))) (dt_targetLen ex_pool))) 0 \<and>
        bt_meta dst' ! nat (dt_batchSize ex_pool + i) =
          min (int (length (?T ! nat i))) (dt_targetLen ex_pool)"
    by blast
  moreover from bspec [OF r h] have "take 4 (bt_targets dst') = [1, 2, 0, 0] \<and> bt_meta dst' ! 1 = 2"
    by (simp add: tl) (simp add: numeral_eq_Suc)
  ultimately show ?thesis using a g d h by blast
qed

section \<open>The invariant of the pipeline\<close>

subsection \<open>Pools\<close>

lemma pool_ops [simp]:
  "bp_bufs (advanceWritePos p) = bp_bufs p"
  "bp_readPos (advanceWritePos p) = bp_readPos p"
  "bp_writePos (advanceWritePos p) = (bp_writePos p + 1) mod length (bp_bufs p)"
  "bp_used (advanceWritePos p) = bp_used p + 1"
  "bp_bufs (advanceReadPos p) = bp_bufs p"
  "bp_readPos (advanceReadPos p) = (bp_readPos p + 1) mod length (bp_bufs p)"
  "bp_writePos (advanceReadPos p) = bp_writePos p"
  "bp_used (advanceReadPos p) = bp_used p - 1"
  "bp_bufs (signalNonEmpty p) = bp_bufs p"
  "bp_readPos (signalNonEmpty p) = bp_readPos p"
  "bp_writePos (signalNonEmpty p) = bp_writePos p"
  "bp_used (signalNonEmpty p) = bp_used p"
  "bp_bufs (signalNonFull p) = bp_bufs p"
  "bp_readPos (signalNonFull p) = bp_readPos p"
  "bp_writePos (signalNonFull p) = bp_writePos p"
  "bp_used (signalNonFull p) = bp_used p"
  "bp_bufs (putForWrite x p) = (bp_bufs p)[bp_writePos p := x]"
  "bp_readPos (putForWrite x p) = bp_readPos p"
  "bp_writePos (putForWrite x p) = bp_writePos p"
  "bp_used (putForWrite x p) = bp_used p"
  by (simp_all add: advanceWritePos_def advanceReadPos_def signalNonEmpty_def signalNonFull_def
      putForWrite_def)

lemma new_pool [simp]:
  "bp_bufs (new_BufferPool S x) = replicate S x"
  "bp_readPos (new_BufferPool S x) = 0"
  "bp_writePos (new_BufferPool S x) = 0"
  "bp_used (new_BufferPool S x) = 0"
  by (simp_all add: new_BufferPool_def)

lemma mod_distinct:
  fixes a b S :: nat
  assumes "a < b" "b < a + S"
  shows "a mod S \<noteq> b mod S"
proof
  assume e: "a mod S = b mod S"
  have "a \<le> b" using assms by simp
  then have "S dvd b - a" using e [symmetric] by (simp add: mod_eq_dvd_iff_nat)
  moreover have "0 < b - a" using assms by simp
  ultimately have "S \<le> b - a" by (rule dvd_imp_le)
  then show False using assms by simp
qed

lemma filter_update_count:
  "i < length xs \<Longrightarrow>
   int (length (filter P (xs[i := y]))) =
     int (length (filter P xs)) - (if P (xs ! i) then 1 else 0) + (if P y then 1 else 0)"
proof (induction xs arbitrary: i)
  case Nil
  then show ?case by simp
next
  case (Cons x xs)
  show ?case
  proof (cases i)
    case 0
    then show ?thesis by simp
  next
    case (Suc n)
    then have "n < length xs" using Cons.prems by simp
    from Cons.IH [OF this] show ?thesis using Suc by (auto split: if_splits)
  qed
qed

lemma filter_all:
  "length (filter P xs) = length xs \<Longrightarrow> x \<in> set xs \<Longrightarrow> P x"
proof (induction xs)
  case Nil
  then show ?case by simp
next
  case (Cons a xs)
  have le: "length (filter P xs) \<le> length xs" by simp
  show ?case
  proof (cases "P a")
    case True
    then show ?thesis using Cons by auto
  next
    case False
    then show ?thesis using Cons.prems le by simp
  qed
qed

lemma filter_none: "(\<And>x. x \<in> set xs \<Longrightarrow> \<not> P x) \<Longrightarrow> filter P xs = []"
  by (induction xs) auto

lemma done_count_update:
  assumes "i < length ss" "length ss = length ps"
  shows "done_count (ss[i := a]) (ps[i := b]) =
     done_count ss ps - (if worker_done (ss ! i, ps ! i) then 1 else 0)
       + (if worker_done (a, b) then 1 else 0)"
proof -
  have "zip (ss[i := a]) (ps[i := b]) = (zip ss ps)[i := (a, b)]" by (simp add: zip_update)
  moreover have "i < length (zip ss ps)" using assms by simp
  moreover have "zip ss ps ! i = (ss ! i, ps ! i)" using assms by simp
  ultimately show ?thesis
    using filter_update_count [of i "zip ss ps" worker_done "(a, b)"] by (simp add: done_count_def)
qed

lemma done_count_all:
  assumes "done_count ss ps \<ge> int (length ps)" "length ss = length ps" "i < length ps"
  shows "ss ! i = 0 \<and> ps ! i = W_wait"
proof -
  have "length (filter worker_done (zip ss ps)) \<le> length (zip ss ps)"
    by (rule length_filter_le)
  then have "length (filter worker_done (zip ss ps)) = length (zip ss ps)"
    using assms(1,2) by (simp add: done_count_def)
  moreover have "(ss ! i, ps ! i) \<in> set (zip ss ps)"
    using assms(2,3) by (metis in_set_zip fst_conv snd_conv)
  ultimately have "worker_done (ss ! i, ps ! i)" by (rule filter_all)
  then show ?thesis by (simp add: worker_done_def)
qed

lemma done_count_le: "length ss = length ps \<Longrightarrow> done_count ss ps \<le> int (length ps)"
proof -
  assume "length ss = length ps"
  moreover have "length (filter worker_done (zip ss ps)) \<le> length (zip ss ps)"
    by (rule length_filter_le)
  ultimately show ?thesis by (simp add: done_count_def)
qed

lemma done_count_ones:
  "done_count (map (\<lambda>x. 1) ss) ps = 0"
proof -
  have "filter worker_done (zip (map (\<lambda>x. 1) ss) ps) = []"
    by (rule filter_none) (auto simp: worker_done_def in_set_zip)
  then show ?thesis by (simp add: done_count_def)
qed

lemma pool_invD:
  assumes "pool_inv S w r p"
  shows "length (bp_bufs p) = S" and "bp_writePos p = w mod S" and "bp_readPos p = r mod S"
    and "0 \<le> bp_used p" and "bp_used p \<le> int S" and "int w = int r + bp_used p"
  using assms by (simp_all add: pool_inv_def)

lemma pool_inv_signal [simp]:
  "pool_inv S w r (signalNonEmpty p) = pool_inv S w r p"
  "pool_inv S w r (signalNonFull p) = pool_inv S w r p"
  by (simp_all add: pool_inv_def)

lemma pool_inv_put [simp]:
  "pool_inv S w r (putForWrite x p) = pool_inv S w r p"
  by (simp add: pool_inv_def)

lemma pool_inv_write:
  assumes "pool_inv S w r p" "\<not> pool_full p"
  shows "pool_inv S (Suc w) r (advanceWritePos p)"
proof -
  note P = pool_invD [OF assms(1)]
  have "bp_used p < int S" using assms(2) P(1,5) by (simp add: pool_full_def)
  moreover have "(w mod S + 1) mod S = Suc w mod S" by (simp add: mod_Suc_eq)
  ultimately show ?thesis using P by (simp add: pool_inv_def)
qed

lemma pool_inv_read:
  assumes "pool_inv S w r p" "0 < bp_used p"
  shows "pool_inv S w (Suc r) (advanceReadPos p)"
proof -
  note P = pool_invD [OF assms(1)]
  have "(r mod S + 1) mod S = Suc r mod S" by (simp add: mod_Suc_eq)
  then show ?thesis using P assms(2) by (simp add: pool_inv_def)
qed

lemma pool_inv_init: "pool_inv S 0 0 (new_BufferPool S x)"
  by (simp add: pool_inv_def)

lemma cfg_okD:
  assumes "cfg_ok c"
  shows "1 \<le> cfg_batchSize c" and "1 \<le> cfg_count c"
    and "ctor_asserts (cfg_batchSize c) (cfg_count c)"
    and "1 \<le> cfg_readSlots c" and "1 \<le> cfg_decodeSlots c" and "cfg_decodeSlots c \<le> 2"
    and "cfg_reader c k = Some bufs \<Longrightarrow> int (length bufs) = cfg_batchSize c"
    and "int wid < cfg_count c \<Longrightarrow> cfg_xform c wid = cfg_xform c 0"
  using assms unfolding cfg_ok_def by blast+

lemma invD:
  assumes "inv c s"
  shows "inv_pools c s" and "inv_manager c s" and "inv_reader c s" and "inv_barrier c s"
    and "inv_decoded c s" and "inv_device c s" and "inv_trainer c s"
  using assms by (simp_all add: inv_def)

lemma inv_poolsD:
  assumes "inv_pools c s"
  shows "pool_inv (cfg_readSlots c) (reads s) (consumed s) (readBufs s)"
    and "pool_inv (cfg_decodeSlots c) (published s) (released s) (decodeBufs s)"
    and "b \<in> set (bp_bufs (decodeBufs s)) \<Longrightarrow> length b = nat (cfg_batchSize c)"
  using assms by (simp_all add: inv_pools_def)

lemma inv_managerD:
  assumes "inv_manager c s"
  shows "bufferIndex s = int (published s mod 2)" and "length (device s) = 2"
    and "managerPc s = M_release \<Longrightarrow> 0 < published s"
    and "managerPc s \<noteq> M_idle \<Longrightarrow> 0 < bp_used (readBufs s)"
    and "managerPc s \<noteq> M_idle \<Longrightarrow> inputBuf s = Some (bp_readPos (readBufs s))"
    and "managerPc s = M_barrier \<or> managerPc s = M_copy \<Longrightarrow>
        bp_used (decodeBufs s) < int (cfg_decodeSlots c)"
  using assms by (simp_all add: inv_manager_def)

lemma inv_barrierD:
  assumes "inv_barrier c s"
  shows "int (length (startSignaled s)) = cfg_count c"
    and "int (length (workerPc s)) = cfg_count c"
    and "\<not> assert_failed s"
    and "managerPc s \<noteq> M_barrier \<Longrightarrow> endSignaled s = 0"
    and "managerPc s \<noteq> M_barrier \<Longrightarrow> i < length (workerPc s) \<Longrightarrow>
        startSignaled s ! i = 0 \<and> workerPc s ! i = W_wait"
    and "managerPc s = M_barrier \<Longrightarrow> endSignaled s = done_count (startSignaled s) (workerPc s)"
    and "managerPc s = M_barrier \<Longrightarrow> i < length (workerPc s) \<Longrightarrow>
        startSignaled s ! i = 0 \<or> startSignaled s ! i = 1 \<and> workerPc s ! i = W_wait"
    and "not_stopping c s"
  using assms by (simp_all add: inv_barrier_def)

lemma not_stoppingD:
  assumes "not_stopping c s"
  shows "\<not> pool_done s" and "\<not> stopManager s" and "\<not> managerStopped s"
    and "workerStopped s = replicate (nat (cfg_count c)) False" and "stopPc s = S_idle"
    and "int wid < cfg_count c \<Longrightarrow> wid < length (workerStopped s) \<and> \<not> workerStopped s ! wid"
  using assms by (simp_all add: not_stopping_def)

text \<open>The steps of normal operation leave the flags of \<^verbatim>\<open>stop\<close> alone.\<close>

lemma not_stopping_upd [simp]:
  "not_stopping c (s\<lparr>readBufs := x1\<rparr>) = not_stopping c s"
  "not_stopping c (s\<lparr>decodeBufs := x2\<rparr>) = not_stopping c s"
  "not_stopping c (s\<lparr>reads := x3\<rparr>) = not_stopping c s"
  "not_stopping c (s\<lparr>rt_done := x4\<rparr>) = not_stopping c s"
  "not_stopping c (s\<lparr>fatal := x5\<rparr>) = not_stopping c s"
  "not_stopping c (s\<lparr>startSignaled := x6\<rparr>) = not_stopping c s"
  "not_stopping c (s\<lparr>endSignaled := x7\<rparr>) = not_stopping c s"
  "not_stopping c (s\<lparr>inputBuf := x8\<rparr>) = not_stopping c s"
  "not_stopping c (s\<lparr>bufferIndex := x9\<rparr>) = not_stopping c s"
  "not_stopping c (s\<lparr>managerPc := y1\<rparr>) = not_stopping c s"
  "not_stopping c (s\<lparr>workerPc := y2\<rparr>) = not_stopping c s"
  "not_stopping c (s\<lparr>device := y3\<rparr>) = not_stopping c s"
  "not_stopping c (s\<lparr>first := y4\<rparr>) = not_stopping c s"
  "not_stopping c (s\<lparr>trainerPc := y5\<rparr>) = not_stopping c s"
  "not_stopping c (s\<lparr>trainer_i := y6\<rparr>) = not_stopping c s"
  "not_stopping c (s\<lparr>observed := y7\<rparr>) = not_stopping c s"
  "not_stopping c (s\<lparr>assert_failed := y8\<rparr>) = not_stopping c s"
  "not_stopping c (s\<lparr>published := y9\<rparr>) = not_stopping c s"
  by (simp_all add: not_stopping_def)

text \<open>In normal operation the branches of shutdown are not taken.\<close>

lemma consume_begin_normal:
  "\<not> stopManager s \<Longrightarrow> consume_begin s =
     (if managerPc s = M_idle \<and> \<not> pool_empty (readBufs s)
      then Some (s\<lparr>inputBuf := Some (bp_readPos (readBufs s)), managerPc := M_in\<rparr>)
      else None)"
  by (simp add: consume_begin_def)

lemma manage_normal:
  "\<not> managerStopped s \<Longrightarrow> manage c s =
     (case managerPc s of
        M_idle \<Rightarrow> consume_begin s
      | M_in \<Rightarrow> produce_signal s
      | M_barrier \<Rightarrow> produce_collect c s
      | M_copy \<Rightarrow> produce_publish c s
      | M_release \<Rightarrow> consume_end s)"
  by (simp add: manage_def)

lemma work_start_normal:
  "\<not> pool_done s \<Longrightarrow> work_start wid s =
     (if startSignaled s ! wid \<noteq> 0
      then Some (s\<lparr>startSignaled := (startSignaled s)[wid := startSignaled s ! wid - 1],
                   workerPc := (workerPc s)[wid := W_decode],
                   assert_failed := (assert_failed s \<or> startSignaled s ! wid - 1 \<noteq> 0)\<rparr>)
      else None)"
  by (simp add: work_start_def)

lemma work_normal:
  "wid < length (workerStopped s) \<and> \<not> workerStopped s ! wid \<Longrightarrow> work c wid s =
     (if wid < length (workerPc s) \<and> wid < length (startSignaled s) then
        (case workerPc s ! wid of
           W_wait \<Rightarrow> work_start wid s
         | W_decode \<Rightarrow> work_items_step c wid s
         | W_signal \<Rightarrow> work_end c wid s)
      else None)"
  by (simp add: work_def)

lemma inv_trainerD:
  assumes "inv_trainer c s"
  shows "first s \<longleftrightarrow> trainer_i s = 0 \<and> (trainerPc s = T_next \<or> trainerPc s = T_done)"
    and "trainerPc s = T_read \<Longrightarrow> trainer_i s < published s"
    and "trainerPc s = T_next \<or> trainerPc s = T_done \<Longrightarrow> trainer_i s \<le> published s"
    and "trainerPc s = T_done \<Longrightarrow> trainer_i s = cfg_minibatchCount c"
    and "trainerPc s \<noteq> T_done \<Longrightarrow> trainer_i s < cfg_minibatchCount c"
    and "observed s = map (\<lambda>k. Some (single c k)) [0..<trainer_i s]"
  using assms by (simp_all add: inv_trainer_def)

lemma inv_readerD:
  assumes "inv_reader c s" "consumed s \<le> k" "k < reads s"
  shows "\<exists>bufs. cfg_reader c k = Some bufs \<and>
           bp_bufs (readBufs s) ! (k mod cfg_readSlots c) = bufs"
  using assms by (simp add: inv_reader_def)

lemma inv_deviceD:
  assumes "inv_device c s" "k < published s"
    "published s \<le> k + (if managerPc s = M_copy then 1 else 2)"
  shows "device s ! (k mod 2) = Some (single c k)"
  using assms by (simp add: inv_device_def)

text \<open>Each part of the invariant reads only some fields of the state.\<close>

lemma inv_pools_cong:
  assumes "readBufs s' = readBufs s" "decodeBufs s' = decodeBufs s" "reads s' = reads s"
    "consumed s' = consumed s" "released s' = released s" "published s' = published s"
  shows "inv_pools c s' = inv_pools c s"
  using assms by (simp add: inv_pools_def)

lemma inv_manager_cong:
  assumes "bufferIndex s' = bufferIndex s" "published s' = published s"
    "length (device s') = length (device s)" "managerPc s' = managerPc s"
    "readBufs s' = readBufs s" "inputBuf s' = inputBuf s"
    "bp_used (decodeBufs s') = bp_used (decodeBufs s)"
  shows "inv_manager c s' = inv_manager c s"
  using assms by (simp add: inv_manager_def)

lemma inv_reader_cong:
  assumes "consumed s' = consumed s" "reads s' = reads s" "readBufs s' = readBufs s"
  shows "inv_reader c s' = inv_reader c s"
  using assms by (simp add: inv_reader_def)

lemma inv_barrier_cong:
  assumes "startSignaled s' = startSignaled s" "workerPc s' = workerPc s"
    "assert_failed s' = assert_failed s" "endSignaled s' = endSignaled s"
    "(managerPc s' = M_barrier) = (managerPc s = M_barrier)"
    "not_stopping c s' = not_stopping c s"
  shows "inv_barrier c s' = inv_barrier c s"
  using assms by (simp add: inv_barrier_def)

lemma inv_decoded_cong:
  assumes "managerPc s' = managerPc s" "workerPc s' = workerPc s"
    "startSignaled s' = startSignaled s" "decodeBufs s' = decodeBufs s"
    "consumed s' = consumed s"
  shows "inv_decoded c s' = inv_decoded c s"
  using assms by (simp add: inv_decoded_def)

lemma inv_decoded_idle:
  assumes "managerPc s \<noteq> M_barrier" "managerPc s \<noteq> M_copy"
  shows "inv_decoded c s"
  using assms by (simp add: inv_decoded_def)

lemma inv_device_cong:
  assumes "published s' = published s" "(managerPc s' = M_copy) = (managerPc s = M_copy)"
    "device s' = device s"
  shows "inv_device c s' = inv_device c s"
  using assms by (simp add: inv_device_def)

lemma inv_trainer_cong:
  assumes "first s' = first s" "trainer_i s' = trainer_i s" "trainerPc s' = trainerPc s"
    "published s' = published s" "observed s' = observed s"
  shows "inv_trainer c s' = inv_trainer c s"
  using assms by (simp add: inv_trainer_def)

lemma inv_init: "cfg_ok c \<Longrightarrow> inv c (sys_init c)"
  unfolding inv_def
proof (intro conjI)
  assume ok: "cfg_ok c"
  show "inv_pools c (sys_init c)"
    by (simp add: inv_pools_def sys_init_def released_def consumed_def pool_inv_init)
  show "inv_manager c (sys_init c)"
    by (simp add: inv_manager_def sys_init_def)
  show "inv_reader c (sys_init c)"
    by (simp add: inv_reader_def sys_init_def consumed_def)
  show "inv_barrier c (sys_init c)"
    using ok by (simp add: inv_barrier_def not_stopping_def sys_init_def cfg_ok_def)
  show "inv_decoded c (sys_init c)"
    by (simp add: inv_decoded_def sys_init_def)
  show "inv_device c (sys_init c)"
    by (simp add: inv_device_def sys_init_def)
  show "inv_trainer c (sys_init c)"
    by (simp add: inv_trainer_def sys_init_def)
qed

subsection \<open>The reader\<close>

lemma ReadThread_produce_SomeD:
  assumes "ReadThread_produce c s = Some s'"
  shows "managerPc s = M_idle" "\<not> pool_full (readBufs s)" "\<not> rt_done s"
    "cfg_reader c (reads s) = None \<Longrightarrow> s' = s\<lparr>rt_done := True, fatal := True\<rparr>"
    "cfg_reader c (reads s) = Some bufs \<Longrightarrow>
       s' = s\<lparr>readBufs := signalNonEmpty (advanceWritePos (putForWrite bufs (readBufs s))),
                  reads := reads s + 1\<rparr>"
proof -
  have g: "\<not> (rt_done s \<or> fatal s \<or> managerPc s \<noteq> M_idle \<or> pool_full (readBufs s))"
    using assms unfolding ReadThread_produce_def by (meson option.distinct(1))
  then show "managerPc s = M_idle" "\<not> pool_full (readBufs s)" "\<not> rt_done s" by simp_all
  show "s' = s\<lparr>rt_done := True, fatal := True\<rparr>" if "cfg_reader c (reads s) = None"
    using assms g that unfolding ReadThread_produce_def by simp
  show "s' = s\<lparr>readBufs := signalNonEmpty (advanceWritePos (putForWrite bufs (readBufs s))),
                  reads := reads s + 1\<rparr>" if "cfg_reader c (reads s) = Some bufs"
    using assms g that unfolding ReadThread_produce_def by simp
qed

lemma pool_full_put [simp]: "pool_full (putForWrite x p) = pool_full p"
  by (simp add: pool_full_def)

lemma ReadThread_produce_inv:
  assumes ok: "cfg_ok c" and i: "inv c s" and st: "ReadThread_produce c s = Some s'"
  shows "inv c s'"
proof (cases "cfg_reader c (reads s)")
  case None
  note s' = ReadThread_produce_SomeD(4) [OF st None]
  have "inv_pools c s' = inv_pools c s"
    by (rule inv_pools_cong) (simp_all add: s' consumed_def released_def)
  moreover have "inv_manager c s' = inv_manager c s"
    by (rule inv_manager_cong) (simp_all add: s')
  moreover have "inv_reader c s' = inv_reader c s"
    by (rule inv_reader_cong) (simp_all add: s' consumed_def)
  moreover have "inv_barrier c s' = inv_barrier c s"
    by (rule inv_barrier_cong) (simp_all add: s')
  moreover have "inv_decoded c s' = inv_decoded c s"
    by (rule inv_decoded_cong) (simp_all add: s' consumed_def)
  moreover have "inv_device c s' = inv_device c s"
    by (rule inv_device_cong) (simp_all add: s')
  moreover have "inv_trainer c s' = inv_trainer c s"
    by (rule inv_trainer_cong) (simp_all add: s')
  ultimately show ?thesis using i by (simp add: inv_def)
next
  case (Some bufs)
  note g = ReadThread_produce_SomeD(1,2) [OF st]
  note s' = ReadThread_produce_SomeD(5) [OF st Some]
  note I = invD [OF i]
  note P = inv_poolsD [OF I(1)]
  note Pin = pool_invD [OF P(1)]
  have Si: "0 < cfg_readSlots c" using cfg_okD(4) [OF ok] by simp
  have c': "consumed s' = consumed s" by (simp add: s' consumed_def)
  have r': "released s' = released s" by (simp add: s' released_def)
  have "pool_inv (cfg_readSlots c) (Suc (reads s)) (consumed s)
      (advanceWritePos (putForWrite bufs (readBufs s)))"
    using P(1) g(2) by (intro pool_inv_write) simp_all
  then have pools: "inv_pools c s'"
    using P(2,3) unfolding inv_pools_def c' r' by (simp add: s')
  have "inv_manager c s'"
    using I(2) g(1) by (simp add: inv_manager_def s')
  moreover have "inv_reader c s'"
    unfolding inv_reader_def
  proof (intro allI impI)
    fix k assume k: "consumed s' \<le> k \<and> k < reads s'"
    show "\<exists>b. cfg_reader c k = Some b \<and> bp_bufs (readBufs s') ! (k mod cfg_readSlots c) = b"
    proof (cases "k = reads s")
      case True
      have "reads s mod cfg_readSlots c < length (bp_bufs (readBufs s))" using Pin(1) Si by simp
      then show ?thesis using True Some Pin(2) by (simp add: s')
    next
      case False
      then have kr: "k < reads s" using k by (simp add: s')
      have "bp_used (readBufs s) < int (cfg_readSlots c)"
        using g(2) Pin(1,5) by (simp add: pool_full_def)
      then have "reads s < k + cfg_readSlots c" using k c' Pin(6) by linarith
      then have "k mod cfg_readSlots c \<noteq> reads s mod cfg_readSlots c"
        using kr by (intro mod_distinct) simp_all
      moreover have "\<exists>b. cfg_reader c k = Some b \<and> bp_bufs (readBufs s) ! (k mod cfg_readSlots c) = b"
        using I(3) k kr c' by (intro inv_readerD) simp_all
      ultimately show ?thesis using Pin(2) by (simp add: s')
    qed
  qed
  moreover have "inv_barrier c s' = inv_barrier c s"
    by (rule inv_barrier_cong) (simp_all add: s')
  moreover have "inv_decoded c s'"
    using g(1) by (intro inv_decoded_idle) (simp_all add: s')
  moreover have "inv_device c s' = inv_device c s"
    by (rule inv_device_cong) (simp_all add: s')
  moreover have "inv_trainer c s' = inv_trainer c s"
    by (rule inv_trainer_cong) (simp_all add: s')
  ultimately show ?thesis using pools I by (simp add: inv_def)
qed

subsection \<open>The manager\<close>

lemma consume_begin_SomeD:
  assumes "consume_begin s = Some s'" "\<not> stopManager s"
  shows "managerPc s = M_idle" "\<not> pool_empty (readBufs s)"
    "s' = s\<lparr>inputBuf := Some (bp_readPos (readBufs s)), managerPc := M_in\<rparr>"
proof -
  note st = assms(1) [unfolded consume_begin_normal [OF assms(2)]]
  have g: "managerPc s = M_idle \<and> \<not> pool_empty (readBufs s)"
    using st by (meson option.distinct(1))
  then show "managerPc s = M_idle" "\<not> pool_empty (readBufs s)" by simp_all
  show "s' = s\<lparr>inputBuf := Some (bp_readPos (readBufs s)), managerPc := M_in\<rparr>"
    using st g by simp
qed

lemma consume_begin_inv:
  assumes ok: "cfg_ok c" and i: "inv c s" and st: "consume_begin s = Some s'"
  shows "inv c s'"
proof -
  note I = invD [OF i]
  note N = not_stoppingD [OF inv_barrierD(8) [OF I(4)]]
  note g = consume_begin_SomeD(1,2) [OF st N(2)]
  note s' = consume_begin_SomeD(3) [OF st N(2)]
  note Pin = pool_invD [OF inv_poolsD(1) [OF I(1)]]
  have c': "consumed s' = consumed s" using g(1) by (simp add: s' consumed_def)
  have r': "released s' = released s" by (simp add: s' released_def)
  have "inv_pools c s' = inv_pools c s"
    by (rule inv_pools_cong) (simp_all add: c' r', simp_all add: s')
  moreover have "inv_manager c s'"
  proof -
    have "0 < bp_used (readBufs s)" using g(2) Pin(4) by (simp add: pool_empty_def)
    then show ?thesis using I(2) by (simp add: inv_manager_def s')
  qed
  moreover have "inv_reader c s' = inv_reader c s"
    by (rule inv_reader_cong) (simp_all add: c', simp_all add: s')
  moreover have "inv_barrier c s' = inv_barrier c s"
    by (rule inv_barrier_cong) (simp_all add: s' g(1))
  moreover have "inv_decoded c s'"
    by (rule inv_decoded_idle) (simp_all add: s')
  moreover have "inv_device c s' = inv_device c s"
    by (rule inv_device_cong) (simp_all add: s' g(1))
  moreover have "inv_trainer c s' = inv_trainer c s"
    by (rule inv_trainer_cong) (simp_all add: s')
  ultimately show ?thesis using I by (simp add: inv_def)
qed

lemma produce_signal_SomeD:
  assumes "produce_signal s = Some s'"
  shows "managerPc s = M_in" "\<not> pool_full (decodeBufs s)"
    "s' = s\<lparr>startSignaled := map (\<lambda>x. 1) (startSignaled s), managerPc := M_barrier\<rparr>"
proof -
  have g: "managerPc s = M_in \<and> \<not> pool_full (decodeBufs s)"
    using assms unfolding produce_signal_def by (meson option.distinct(1))
  then show "managerPc s = M_in" "\<not> pool_full (decodeBufs s)" by simp_all
  show "s' = s\<lparr>startSignaled := map (\<lambda>x. 1) (startSignaled s), managerPc := M_barrier\<rparr>"
    using assms g unfolding produce_signal_def by simp
qed

lemma produce_signal_inv:
  assumes ok: "cfg_ok c" and i: "inv c s" and st: "produce_signal s = Some s'"
  shows "inv c s'"
proof -
  note g = produce_signal_SomeD(1,2) [OF st]
  note s' = produce_signal_SomeD(3) [OF st]
  note I = invD [OF i]
  note Pout = pool_invD [OF inv_poolsD(2) [OF I(1)]]
  note B = inv_barrierD [OF I(4)]
  have c': "consumed s' = consumed s" using g(1) by (simp add: s' consumed_def)
  have r': "released s' = released s" by (simp add: s' released_def)
  have nb: "managerPc s \<noteq> M_barrier" using g(1) by simp
  have "inv_pools c s' = inv_pools c s"
    by (rule inv_pools_cong) (simp_all add: c' r', simp_all add: s')
  moreover have "inv_manager c s'"
  proof -
    have "bp_used (decodeBufs s) < int (cfg_decodeSlots c)"
      using g(2) Pout(1,5) by (simp add: pool_full_def)
    then show ?thesis using I(2) g(1) by (simp add: inv_manager_def s')
  qed
  moreover have "inv_reader c s' = inv_reader c s"
    by (rule inv_reader_cong) (simp_all add: c', simp_all add: s')
  moreover have "inv_barrier c s'"
  proof -
    have "startSignaled s' ! i = 1 \<and> workerPc s' ! i = W_wait" if "i < length (workerPc s')" for i
    proof -
      have "i < length (startSignaled s)" using that B(1,2) by (simp add: s')
      then show ?thesis using B(5) [OF nb, of i] that by (simp add: s')
    qed
    then show ?thesis using B(1,2,3,8) B(4) [OF nb]
      by (simp add: inv_barrier_def s' done_count_ones)
  qed
  moreover have "inv_decoded c s'"
  proof -
    have "\<not> (workerPc s' ! i = W_signal \<or> worker_done (startSignaled s' ! i, workerPc s' ! i))"
      if "i < length (workerPc s')" for i
    proof -
      have "i < length (startSignaled s)" using that B(1,2) by (simp add: s')
      then show ?thesis using B(5) [OF nb, of i] that by (simp add: s' worker_done_def)
    qed
    then show ?thesis unfolding inv_decoded_def by (simp add: s')
  qed
  moreover have "inv_device c s' = inv_device c s"
    by (rule inv_device_cong) (simp_all add: s' g(1))
  moreover have "inv_trainer c s' = inv_trainer c s"
    by (rule inv_trainer_cong) (simp_all add: s')
  ultimately show ?thesis using I by (simp add: inv_def)
qed

lemma produce_collect_SomeD:
  assumes "produce_collect c s = Some s'"
  shows "managerPc s = M_barrier" "\<not> endSignaled s < cfg_count c"
    "s' = s\<lparr>endSignaled := 0, device := (device s)[nat (bufferIndex s) := None],
              managerPc := M_copy\<rparr>"
proof -
  have g: "managerPc s = M_barrier \<and> \<not> endSignaled s < cfg_count c"
    using assms unfolding produce_collect_def by (meson option.distinct(1))
  then show "managerPc s = M_barrier" "\<not> endSignaled s < cfg_count c" by simp_all
  show "s' = s\<lparr>endSignaled := 0, device := (device s)[nat (bufferIndex s) := None],
              managerPc := M_copy\<rparr>"
    using assms g unfolding produce_collect_def by simp
qed

lemma getForWrite_length:
  assumes "inv_pools c s" "cfg_ok c"
  shows "length (getForWrite (decodeBufs s)) = nat (cfg_batchSize c)"
proof -
  note P = inv_poolsD [OF assms(1)]
  note Pout = pool_invD [OF P(2)]
  have "0 < cfg_decodeSlots c" using cfg_okD(5) [OF assms(2)] by simp
  then have "bp_writePos (decodeBufs s) < length (bp_bufs (decodeBufs s))"
    using Pout(1,2) by simp
  then have "getForWrite (decodeBufs s) \<in> set (bp_bufs (decodeBufs s))"
    by (simp add: getForWrite_def)
  then show ?thesis by (rule P(3))
qed

lemma input_batch:
  assumes "inv c s" "cfg_ok c" "managerPc s \<noteq> M_idle"
  shows "\<exists>bufs. cfg_reader c (consumed s) = Some bufs \<and>
      inputBuf s = Some (bp_readPos (readBufs s)) \<and>
      bp_bufs (readBufs s) ! bp_readPos (readBufs s) = bufs \<and>
      int (length bufs) = cfg_batchSize c"
proof -
  note I = invD [OF assms(1)]
  note Pin = pool_invD [OF inv_poolsD(1) [OF I(1)]]
  note M = inv_managerD [OF I(2)]
  have "consumed s < reads s" using M(4) [OF assms(3)] Pin(6) by linarith
  then obtain bufs where b: "cfg_reader c (consumed s) = Some bufs"
    "bp_bufs (readBufs s) ! (consumed s mod cfg_readSlots c) = bufs"
    using inv_readerD [OF I(3), of "consumed s"] by auto
  then show ?thesis using M(5) [OF assms(3)] Pin(3) cfg_okD(7) [OF assms(2) b(1)] by simp
qed

lemma produce_collect_inv:
  assumes ok: "cfg_ok c" and i: "inv c s" and st: "produce_collect c s = Some s'"
  shows "inv c s'"
proof -
  note g = produce_collect_SomeD(1,2) [OF st]
  note s' = produce_collect_SomeD(3) [OF st]
  note I = invD [OF i]
  note M = inv_managerD [OF I(2)]
  note B = inv_barrierD [OF I(4)]
  have c': "consumed s' = consumed s" using g(1) by (simp add: s' consumed_def)
  have r': "released s' = released s" by (simp add: s' released_def)
  have len: "length (startSignaled s) = length (workerPc s)" using B(1,2) by simp
  have "int (length (workerPc s)) \<le> done_count (startSignaled s) (workerPc s)"
    using g(2) B(2) B(6) [OF g(1)] by simp
  then have all_done: "startSignaled s ! i = 0 \<and> workerPc s ! i = W_wait"
    if "i < length (workerPc s)" for i
    using len that by (rule done_count_all)
  have "inv_pools c s' = inv_pools c s"
    by (rule inv_pools_cong) (simp_all add: c' r', simp_all add: s')
  moreover have "inv_manager c s'"
    using I(2) g(1) by (simp add: inv_manager_def s')
  moreover have "inv_reader c s' = inv_reader c s"
    by (rule inv_reader_cong) (simp_all add: c', simp_all add: s')
  moreover have "inv_barrier c s'"
    using B(1,2,3,8) all_done by (simp add: inv_barrier_def s')
  moreover have "inv_decoded c s'"
  proof -
    obtain bufs where b: "cfg_reader c (consumed s) = Some bufs"
      "int (length bufs) = cfg_batchSize c"
      using input_batch [OF i ok] g(1) by auto
    have l: "length (getForWrite (decodeBufs s)) = nat (cfg_batchSize c)"
      using I(1) ok by (rule getForWrite_length)
    have "getForWrite (decodeBufs s) = map (cfg_xform c 0) bufs"
    proof (rule nth_equalityI)
      show "length (getForWrite (decodeBufs s)) = length (map (cfg_xform c 0) bufs)"
        using l b(2) by simp
    next
      fix j assume "j < length (getForWrite (decodeBufs s))"
      then have j: "int j \<in> {0..<cfg_batchSize c}" using l by simp
      have "(\<Union>wid\<in>{0..<cfg_count c}. work_items (cfg_batchSize c) (cfg_count c) wid)
          = {0..<cfg_batchSize c}"
        using cfg_okD(1,2,3) [OF ok] by (rule work_items_union)
      then have "int j \<in> (\<Union>wid\<in>{0..<cfg_count c}.
          work_items (cfg_batchSize c) (cfg_count c) wid)"
        using j by simp
      then obtain wid where w0: "wid \<in> {0..<cfg_count c}"
        and w3: "int j \<in> work_items (cfg_batchSize c) (cfg_count c) wid"
        by (rule UN_E)
      have w: "0 \<le> wid" "wid < cfg_count c"
        "int j \<in> work_items (cfg_batchSize c) (cfg_count c) wid"
        using w0 w3 by simp_all
      have wl: "nat wid < length (workerPc s)" using w(1,2) B(2) by linarith
      have "worker_done (startSignaled s ! nat wid, workerPc s ! nat wid)"
        using all_done [OF wl] by (simp add: worker_done_def)
      then have "\<forall>j \<in> work_items (cfg_batchSize c) (cfg_count c) (int (nat wid)).
          getForWrite (decodeBufs s) ! nat j =
            cfg_xform c 0 (the (cfg_reader c (consumed s)) ! nat j)"
        using I(5) g(1) wl unfolding inv_decoded_def by blast
      then have "\<forall>j \<in> work_items (cfg_batchSize c) (cfg_count c) wid.
          getForWrite (decodeBufs s) ! nat j = cfg_xform c 0 (bufs ! nat j)"
        using w(1) b(1) by simp
      from bspec [OF this w(3)]
      have "getForWrite (decodeBufs s) ! nat (int j) = cfg_xform c 0 (bufs ! nat (int j))" .
      moreover have "j < length bufs" using j b(2) by simp
      ultimately show "getForWrite (decodeBufs s) ! j = map (cfg_xform c 0) bufs ! j" by simp
    qed
    then show ?thesis unfolding inv_decoded_def c' using b(1) by (simp add: s')
  qed
  moreover have "inv_device c s'"
    unfolding inv_device_def
  proof (intro allI impI)
    fix k
    assume "k < published s' \<and> published s' \<le> k + (if managerPc s' = M_copy then 1 else 2)"
    then have k: "k < published s" "published s \<le> k + 1" by (simp_all add: s')
    then have ne: "k mod 2 \<noteq> published s mod 2" by (intro mod_distinct) simp_all
    have "device s ! (k mod 2) = Some (single c k)"
      using I(6) k g(1) by (intro inv_deviceD) simp_all
    then show "device s' ! (k mod 2) = Some (single c k)"
      using ne M(1) by (simp add: s')
  qed
  moreover have "inv_trainer c s' = inv_trainer c s"
    by (rule inv_trainer_cong) (simp_all add: s')
  ultimately show ?thesis using I by (simp add: inv_def)
qed

lemma produce_publish_SomeD:
  assumes "produce_publish c s = Some s'"
  shows "managerPc s = M_copy"
    "s' = s\<lparr>device := (device s)[nat (bufferIndex s) :=
                               Some (cfg_transpose c (getForWrite (decodeBufs s)))],
                   bufferIndex := (if bufferIndex s = 0 then 1 else 0),
                   decodeBufs := signalNonEmpty (advanceWritePos (decodeBufs s)),
                   published := published s + 1,
                   managerPc := M_release\<rparr>"
proof -
  show g: "managerPc s = M_copy"
    using assms unfolding produce_publish_def by (meson option.distinct(1))
  show "s' = s\<lparr>device := (device s)[nat (bufferIndex s) :=
                               Some (cfg_transpose c (getForWrite (decodeBufs s)))],
                   bufferIndex := (if bufferIndex s = 0 then 1 else 0),
                   decodeBufs := signalNonEmpty (advanceWritePos (decodeBufs s)),
                   published := published s + 1,
                   managerPc := M_release\<rparr>"
    using assms g unfolding produce_publish_def by simp
qed

lemma flip_mod2: "(if int (n mod 2) = 0 then 1 else 0) = int (Suc n mod 2)"
  by (cases "n mod 2 = 0") (simp_all add: mod_Suc)

lemma produce_publish_inv:
  assumes ok: "cfg_ok c" and i: "inv c s" and st: "produce_publish c s = Some s'"
  shows "inv c s'"
proof -
  note g = produce_publish_SomeD(1) [OF st]
  note s' = produce_publish_SomeD(2) [OF st]
  note I = invD [OF i]
  note P = inv_poolsD [OF I(1)]
  note Pout = pool_invD [OF P(2)]
  note M = inv_managerD [OF I(2)]
  note T = inv_trainerD [OF I(7)]
  have c': "consumed s' = consumed s" using g by (simp add: s' consumed_def)
  have r': "released s' = released s" by (simp add: s' released_def)
  have nf: "\<not> pool_full (decodeBufs s)" using M(6) g Pout(1) by (simp add: pool_full_def)
  have "inv_pools c s'"
  proof -
    have "pool_inv (cfg_decodeSlots c) (Suc (published s)) (released s)
        (advanceWritePos (decodeBufs s))"
      using P(2) nf by (rule pool_inv_write)
    then show ?thesis using P(1,3) unfolding inv_pools_def c' r' by (simp add: s')
  qed
  moreover have "inv_manager c s'"
  proof -
    have fl: "(if bufferIndex s = 0 then 1 else 0) = int (Suc (published s) mod 2)"
      unfolding M(1) by (rule flip_mod2)
    show ?thesis using M(2) M(4,5) g fl by (simp add: inv_manager_def s')
  qed
  moreover have "inv_reader c s' = inv_reader c s"
    by (rule inv_reader_cong) (simp_all add: c', simp_all add: s')
  moreover have "inv_barrier c s' = inv_barrier c s"
    by (rule inv_barrier_cong) (simp_all add: s' g)
  moreover have "inv_decoded c s'"
    by (rule inv_decoded_idle) (simp_all add: s')
  moreover have "inv_device c s'"
    unfolding inv_device_def
  proof (intro allI impI)
    fix k
    assume "k < published s' \<and> published s' \<le> k + (if managerPc s' = M_copy then 1 else 2)"
    then have k: "k < published s + 1" "published s \<le> k + 1" by (simp_all add: s')
    have bi: "nat (bufferIndex s) = published s mod 2" using M(1) by simp
    show "device s' ! (k mod 2) = Some (single c k)"
    proof (cases "k = published s")
      case True
      have "getForWrite (decodeBufs s) = map (cfg_xform c 0) (the (cfg_reader c (consumed s)))"
        using I(5) g by (simp add: inv_decoded_def)
      moreover have "consumed s = published s" using g by (simp add: consumed_def)
      moreover have "published s mod 2 < length (device s)" using M(2) by simp
      ultimately show ?thesis using True bi by (simp add: s' single_def)
    next
      case False
      then have k2: "k < published s" using k by simp
      then have ne: "k mod 2 \<noteq> published s mod 2" using k by (intro mod_distinct) simp_all
      have "device s ! (k mod 2) = Some (single c k)"
        using I(6) k2 k(2) g by (intro inv_deviceD) simp_all
      then show ?thesis using ne bi by (simp add: s')
    qed
  qed
  moreover have "inv_trainer c s'"
    using T(1,4,5,6) T(2,3) unfolding inv_trainer_def by (auto simp: s')
  ultimately show ?thesis using I by (simp add: inv_def)
qed

lemma consume_end_SomeD:
  assumes "consume_end s = Some s'"
  shows "managerPc s = M_release"
    "s' = s\<lparr>readBufs := signalNonFull (advanceReadPos (readBufs s)), managerPc := M_idle\<rparr>"
proof -
  show g: "managerPc s = M_release"
    using assms unfolding consume_end_def by (meson option.distinct(1))
  show "s' = s\<lparr>readBufs := signalNonFull (advanceReadPos (readBufs s)), managerPc := M_idle\<rparr>"
    using assms g unfolding consume_end_def by simp
qed

lemma consume_end_inv:
  assumes ok: "cfg_ok c" and i: "inv c s" and st: "consume_end s = Some s'"
  shows "inv c s'"
proof -
  note g = consume_end_SomeD(1) [OF st]
  note s' = consume_end_SomeD(2) [OF st]
  note I = invD [OF i]
  note P = inv_poolsD [OF I(1)]
  note M = inv_managerD [OF I(2)]
  have "0 < published s" using M(3) g by simp
  then have c': "consumed s' = Suc (consumed s)" using g by (simp add: s' consumed_def)
  have r': "released s' = released s" by (simp add: s' released_def)
  have "inv_pools c s'"
  proof -
    have "0 < bp_used (readBufs s)" using M(4) g by simp
    with P(1) have "pool_inv (cfg_readSlots c) (reads s) (Suc (consumed s))
        (advanceReadPos (readBufs s))"
      by (rule pool_inv_read)
    then show ?thesis using P(2,3) unfolding inv_pools_def c' r' by (simp add: s')
  qed
  moreover have "inv_manager c s'"
    using M(1,2) by (simp add: inv_manager_def s')
  moreover have "inv_reader c s'"
    unfolding inv_reader_def c'
  proof (intro allI impI)
    fix k assume k: "Suc (consumed s) \<le> k \<and> k < reads s'"
    then have "\<exists>bufs. cfg_reader c k = Some bufs \<and>
           bp_bufs (readBufs s) ! (k mod cfg_readSlots c) = bufs"
      using I(3) by (intro inv_readerD) (simp_all add: s')
    then show "\<exists>bufs. cfg_reader c k = Some bufs \<and>
           bp_bufs (readBufs s') ! (k mod cfg_readSlots c) = bufs"
      by (simp add: s')
  qed
  moreover have "inv_barrier c s' = inv_barrier c s"
    by (rule inv_barrier_cong) (simp_all add: s' g)
  moreover have "inv_decoded c s'"
    by (rule inv_decoded_idle) (simp_all add: s')
  moreover have "inv_device c s' = inv_device c s"
    by (rule inv_device_cong) (simp_all add: s' g)
  moreover have "inv_trainer c s' = inv_trainer c s"
    by (rule inv_trainer_cong) (simp_all add: s')
  ultimately show ?thesis using I by (simp add: inv_def)
qed

lemma manage_inv:
  assumes ok: "cfg_ok c" and i: "inv c s" and st: "manage c s = Some s'"
  shows "inv c s'"
proof -
  note N = not_stoppingD [OF inv_barrierD(8) [OF invD(4) [OF i]]]
  show ?thesis
    using st consume_begin_inv [OF ok i] produce_signal_inv [OF ok i]
      produce_collect_inv [OF ok i] produce_publish_inv [OF ok i] consume_end_inv [OF ok i]
    unfolding manage_normal [OF N(3)] by (cases "managerPc s") simp_all
qed

subsection \<open>The workers\<close>

lemma decode_loop_ok:
  assumes "e \<le> int (length src)" "e \<le> int (length dst)"
  shows "0 \<le> i \<Longrightarrow> length dst0 = length dst \<Longrightarrow>
    \<exists>dst'. decode_loop xf wid src i e dst0 = Some dst' \<and> length dst' = length dst \<and>
      (\<forall>j. dst' ! j = (if i \<le> int j \<and> int j < e then xf wid (src ! j) else dst0 ! j))"
proof (induction "nat (e - i)" arbitrary: i dst0)
  case 0
  then have ni: "\<not> i < e" by simp
  have "decode_loop xf wid src i e dst0 = Some dst0"
    using ni by (subst decode_loop.simps) simp
  then show ?case using ni "0.prems" by auto
next
  case (Suc n)
  then have ie: "i < e" by linarith
  have i0: "0 \<le> i" by fact
  have r: "nat i < length src" "nat i < length dst0" using ie i0 assms Suc.prems(2) by linarith+
  define dst1 where "dst1 = dst0[nat i := xf wid (src ! nat i)]"
  have n: "n = nat (e - (i + 1))" using Suc.hyps(2) by linarith
  have l1: "length dst1 = length dst" using Suc.prems(2) by (simp add: dst1_def)
  have "0 \<le> i + 1" using i0 by simp
  from Suc.hyps(1) [OF n this l1] obtain dst' where
    d: "decode_loop xf wid src (i + 1) e dst1 = Some dst'" "length dst' = length dst"
    and v: "\<forall>j. dst' ! j = (if i + 1 \<le> int j \<and> int j < e then xf wid (src ! j) else dst1 ! j)"
    by blast
  have "decode_loop xf wid src i e dst0 = Some dst'"
    using ie i0 r d(1) by (subst decode_loop.simps) (simp add: dst1_def)
  moreover have "dst' ! j = (if i \<le> int j \<and> int j < e then xf wid (src ! j) else dst0 ! j)" for j
  proof (cases "int j = i")
    case True
    then have "j = nat i" by simp
    then show ?thesis using v ie i0 r(2) True by (simp add: dst1_def)
  next
    case False
    then have "nat i \<noteq> j" using i0 by linarith
    moreover have "(i + 1 \<le> int j \<and> int j < e) = (i \<le> int j \<and> int j < e)" using False by linarith
    ultimately show ?thesis using v by (simp add: dst1_def)
  qed
  ultimately show ?case using d(2) by blast
qed

lemma inv_decodedD:
  assumes "inv_decoded c s" "managerPc s = M_barrier" "i < length (workerPc s)"
    "workerPc s ! i = W_signal \<or> worker_done (startSignaled s ! i, workerPc s ! i)"
    "j \<in> work_items (cfg_batchSize c) (cfg_count c) (int i)"
  shows "getForWrite (decodeBufs s) ! nat j =
      cfg_xform c 0 (the (cfg_reader c (consumed s)) ! nat j)"
  using assms unfolding inv_decoded_def by blast

lemma work_SomeD:
  assumes "work c wid s = Some s'"
  shows "wid < length (workerPc s)" "wid < length (startSignaled s)"
    "workerPc s ! wid = W_wait \<Longrightarrow> work_start wid s = Some s'"
    "workerPc s ! wid = W_decode \<Longrightarrow> work_items_step c wid s = Some s'"
    "workerPc s ! wid = W_signal \<Longrightarrow> work_end c wid s = Some s'"
proof -
  have g: "wid < length (workerPc s) \<and> wid < length (startSignaled s) \<and>
      wid < length (workerStopped s) \<and> \<not> workerStopped s ! wid"
    using assms unfolding work_def by (meson option.distinct(1))
  then show "wid < length (workerPc s)" "wid < length (startSignaled s)" by simp_all
  show "work_start wid s = Some s'" if "workerPc s ! wid = W_wait"
    using assms g that unfolding work_def by simp
  show "work_items_step c wid s = Some s'" if "workerPc s ! wid = W_decode"
    using assms g that unfolding work_def by simp
  show "work_end c wid s = Some s'" if "workerPc s ! wid = W_signal"
    using assms g that unfolding work_def by simp
qed

lemma work_start_SomeD:
  assumes "work_start wid s = Some s'" "\<not> pool_done s"
  shows "startSignaled s ! wid \<noteq> 0"
    "s' = s\<lparr>startSignaled := (startSignaled s)[wid := startSignaled s ! wid - 1],
                   workerPc := (workerPc s)[wid := W_decode],
                   assert_failed := (assert_failed s \<or> startSignaled s ! wid - 1 \<noteq> 0)\<rparr>"
proof -
  note st = assms(1) [unfolded work_start_normal [OF assms(2)]]
  show g: "startSignaled s ! wid \<noteq> 0"
    using st by (meson option.distinct(1))
  show "s' = s\<lparr>startSignaled := (startSignaled s)[wid := startSignaled s ! wid - 1],
                   workerPc := (workerPc s)[wid := W_decode],
                   assert_failed := (assert_failed s \<or> startSignaled s ! wid - 1 \<noteq> 0)\<rparr>"
    using st g by simp
qed

text \<open>A worker leaves its wait only during a round, and then its signal is 1.\<close>

lemma worker_active:
  assumes "inv_barrier c s" "wid < length (workerPc s)"
    "workerPc s ! wid \<noteq> W_wait \<or> startSignaled s ! wid \<noteq> 0"
  shows "managerPc s = M_barrier"
    "workerPc s ! wid \<noteq> W_wait \<Longrightarrow> startSignaled s ! wid = 0"
    "startSignaled s ! wid \<noteq> 0 \<Longrightarrow> startSignaled s ! wid = 1 \<and> workerPc s ! wid = W_wait"
proof -
  note B = inv_barrierD [OF assms(1)]
  show m: "managerPc s = M_barrier" using B(5) [of wid] assms(2,3) by blast
  show "startSignaled s ! wid = 0" if "workerPc s ! wid \<noteq> W_wait"
    using B(7) [OF m assms(2)] that by blast
  show "startSignaled s ! wid = 1 \<and> workerPc s ! wid = W_wait" if "startSignaled s ! wid \<noteq> 0"
    using B(7) [OF m assms(2)] that by blast
qed

lemma work_start_inv:
  assumes ok: "cfg_ok c" and i: "inv c s" and st: "work_start wid s = Some s'"
    and w: "wid < length (workerPc s)" "workerPc s ! wid = W_wait"
  shows "inv c s'"
proof -
  note I = invD [OF i]
  note B = inv_barrierD [OF I(4)]
  note N = not_stoppingD [OF B(8)]
  note g = work_start_SomeD(1) [OF st N(1)]
  have len: "length (startSignaled s) = length (workerPc s)" using B(1,2) by simp
  have m: "managerPc s = M_barrier" and one: "startSignaled s ! wid = 1"
    using worker_active(1,3) [OF I(4) w(1)] g by simp_all
  have s': "s' = s\<lparr>startSignaled := (startSignaled s)[wid := 0],
                   workerPc := (workerPc s)[wid := W_decode]\<rparr>"
    using work_start_SomeD(2) [OF st N(1)] one B(3) by simp
  have c': "consumed s' = consumed s" by (simp add: s' consumed_def)
  have r': "released s' = released s" by (simp add: s' released_def)
  have "inv_pools c s' = inv_pools c s"
    by (rule inv_pools_cong) (simp_all add: c' r', simp_all add: s')
  moreover have "inv_manager c s' = inv_manager c s"
    by (rule inv_manager_cong) (simp_all add: s')
  moreover have "inv_reader c s' = inv_reader c s"
    by (rule inv_reader_cong) (simp_all add: c', simp_all add: s')
  moreover have "inv_barrier c s'"
  proof -
    have "done_count ((startSignaled s)[wid := 0]) ((workerPc s)[wid := W_decode])
        = done_count (startSignaled s) (workerPc s)"
      using w len one by (simp add: done_count_update worker_done_def)
    moreover have "(startSignaled s)[wid := 0] ! i = 0 \<or>
        (startSignaled s)[wid := 0] ! i = 1 \<and> (workerPc s)[wid := W_decode] ! i = W_wait"
      if "i < length (workerPc s)" for i
      using B(7) [OF m that] that len by (cases "i = wid") simp_all
    ultimately show ?thesis using B(1,2,3,8) B(6) [OF m] m by (simp add: inv_barrier_def s')
  qed
  moreover have "inv_decoded c s'"
    unfolding inv_decoded_def
  proof (intro conjI impI allI)
    fix i assume a: "managerPc s' = M_barrier" "i < length (workerPc s')"
      "workerPc s' ! i = W_signal \<or> worker_done (startSignaled s' ! i, workerPc s' ! i)"
    have il: "i < length (workerPc s)" using a(2) by (simp add: s')
    have "i \<noteq> wid" using a(3) w(1) len by (auto simp: s' worker_done_def)
    then have d: "workerPc s ! i = W_signal \<or> worker_done (startSignaled s ! i, workerPc s ! i)"
      using a(3) by (simp add: s')
    show "\<forall>j\<in>work_items (cfg_batchSize c) (cfg_count c) (int i).
          getForWrite (decodeBufs s') ! nat j =
          cfg_xform c 0 (the (cfg_reader c (consumed s')) ! nat j)"
    proof
      fix j assume "j \<in> work_items (cfg_batchSize c) (cfg_count c) (int i)"
      from inv_decodedD [OF I(5) m il d this]
      show "getForWrite (decodeBufs s') ! nat j =
          cfg_xform c 0 (the (cfg_reader c (consumed s')) ! nat j)"
        unfolding c' by (simp add: s')
    qed
  next
    assume "managerPc s' = M_copy"
    then show "getForWrite (decodeBufs s') =
        map (cfg_xform c 0) (the (cfg_reader c (consumed s')))"
      using m by (simp add: s')
  qed
  moreover have "inv_device c s' = inv_device c s"
    by (rule inv_device_cong) (simp_all add: s')
  moreover have "inv_trainer c s' = inv_trainer c s"
    by (rule inv_trainer_cong) (simp_all add: s')
  ultimately show ?thesis using I by (simp add: inv_def)
qed

lemma getForWrite_put:
  assumes "bp_writePos p < length (bp_bufs p)"
  shows "getForWrite (putForWrite x p) = x"
  using assms by (simp add: getForWrite_def)

lemma work_items_step_inv:
  assumes ok: "cfg_ok c" and i: "inv c s" and st: "work_items_step c wid s = Some s'"
    and w: "wid < length (workerPc s)" "workerPc s ! wid = W_decode"
  shows "inv c s'"
proof -
  note I = invD [OF i]
  note P = inv_poolsD [OF I(1)]
  note Pout = pool_invD [OF P(2)]
  note B = inv_barrierD [OF I(4)]
  note K = cfg_okD [OF ok]
  have len: "length (startSignaled s) = length (workerPc s)" using B(1,2) by simp
  have m: "managerPc s = M_barrier" and z: "startSignaled s ! wid = 0"
    using worker_active(1,2) [OF I(4) w(1)] w(2) by simp_all
  have widN: "int wid < cfg_count c" using w(1) B(2) by simp
  obtain bufs where b: "cfg_reader c (consumed s) = Some bufs"
    "inputBuf s = Some (bp_readPos (readBufs s))"
    "bp_bufs (readBufs s) ! bp_readPos (readBufs s) = bufs"
    "int (length bufs) = cfg_batchSize c"
    using input_batch [OF i ok] m by auto
  define old where "old = getForWrite (decodeBufs s)"
  have lo: "length old = nat (cfg_batchSize c)"
    unfolding old_def using I(1) ok by (rule getForWrite_length)
  have rb: "0 \<le> run_startInd (cfg_batchSize c) (cfg_count c) (int wid)"
    "run_endInd (cfg_batchSize c) (cfg_count c) (int wid) \<le> cfg_batchSize c"
    using run_bounds [OF K(1,2,3) _ widN] by simp_all
  have "\<exists>dst. decode_loop (cfg_xform c) wid bufs
        (run_startInd (cfg_batchSize c) (cfg_count c) (int wid))
        (run_endInd (cfg_batchSize c) (cfg_count c) (int wid)) old = Some dst \<and>
      length dst = length old \<and>
      (\<forall>j. dst ! j = (if run_startInd (cfg_batchSize c) (cfg_count c) (int wid) \<le> int j \<and>
                         int j < run_endInd (cfg_batchSize c) (cfg_count c) (int wid)
                      then cfg_xform c wid (bufs ! j) else old ! j))"
    using rb b(4) lo K(1) by (intro decode_loop_ok) simp_all
  then obtain dst where d: "decode_loop (cfg_xform c) wid bufs
        (run_startInd (cfg_batchSize c) (cfg_count c) (int wid))
        (run_endInd (cfg_batchSize c) (cfg_count c) (int wid)) old = Some dst"
    and ld: "length dst = length old"
    and v: "\<And>j. dst ! j = (if run_startInd (cfg_batchSize c) (cfg_count c) (int wid) \<le> int j \<and>
                         int j < run_endInd (cfg_batchSize c) (cfg_count c) (int wid)
                      then cfg_xform c wid (bufs ! j) else old ! j)"
    by blast
  have s': "s' = s\<lparr>decodeBufs := putForWrite dst (decodeBufs s),
                      workerPc := (workerPc s)[wid := W_signal]\<rparr>"
    using st d b(2,3) unfolding work_items_step_def old_def by simp
  have c': "consumed s' = consumed s" by (simp add: s' consumed_def)
  have r': "released s' = released s" by (simp add: s' released_def)
  have wp: "bp_writePos (decodeBufs s) < length (bp_bufs (decodeBufs s))"
    using Pout(1,2) K(5) by simp
  have gw: "getForWrite (decodeBufs s') = dst"
    using wp by (simp add: s' getForWrite_put)
  have "inv_pools c s'"
  proof -
    have "length b = nat (cfg_batchSize c)"
      if "b \<in> set ((bp_bufs (decodeBufs s))[bp_writePos (decodeBufs s) := dst])" for b
    proof -
      have "b \<in> insert dst (set (bp_bufs (decodeBufs s)))"
        using that set_update_subset_insert by fast
      then show ?thesis using P(3) ld lo by auto
    qed
    then show ?thesis using P(1,2) unfolding inv_pools_def c' r' by (simp add: s')
  qed
  moreover have "inv_manager c s' = inv_manager c s"
    by (rule inv_manager_cong) (simp_all add: s')
  moreover have "inv_reader c s' = inv_reader c s"
    by (rule inv_reader_cong) (simp_all add: c', simp_all add: s')
  moreover have "inv_barrier c s'"
  proof -
    have "done_count ((startSignaled s)[wid := startSignaled s ! wid])
          ((workerPc s)[wid := W_signal])
        = done_count (startSignaled s) (workerPc s)"
      using w len by (subst done_count_update) (simp_all add: worker_done_def)
    then have dc: "done_count (startSignaled s) ((workerPc s)[wid := W_signal])
        = done_count (startSignaled s) (workerPc s)" by simp
    have "startSignaled s ! i = 0 \<or>
        startSignaled s ! i = 1 \<and> (workerPc s)[wid := W_signal] ! i = W_wait"
      if "i < length (workerPc s)" for i
      using B(7) [OF m that] that z by (cases "i = wid") simp_all
    then show ?thesis using B(1,2,3,8) B(6) [OF m] m dc by (simp add: inv_barrier_def s')
  qed
  moreover have "inv_decoded c s'"
    unfolding inv_decoded_def
  proof (intro conjI impI allI ballI)
    fix i j assume a: "managerPc s' = M_barrier" "i < length (workerPc s')"
      "workerPc s' ! i = W_signal \<or> worker_done (startSignaled s' ! i, workerPc s' ! i)"
      and j: "j \<in> work_items (cfg_batchSize c) (cfg_count c) (int i)"
    have il: "i < length (workerPc s)" using a(2) by (simp add: s')
    have iN: "int i < cfg_count c" using il B(2) by simp
    have jr: "0 \<le> j" "j < cfg_batchSize c"
      using j run_bounds [OF K(1,2,3) _ iN] by (simp_all add: work_items_def)
    have nj: "int (nat j) = j" using jr(1) by simp
    note vj = v [of "nat j", unfolded nj]
    have "dst ! nat j = cfg_xform c 0 (bufs ! nat j)"
    proof (cases "i = wid")
      case True
      then have "run_startInd (cfg_batchSize c) (cfg_count c) (int wid) \<le> j \<and>
          j < run_endInd (cfg_batchSize c) (cfg_count c) (int wid)"
        using j by (simp add: work_items_def)
      then have "dst ! nat j = cfg_xform c wid (bufs ! nat j)" using vj by auto
      then show ?thesis using K(8) [OF widN] by simp
    next
      case False
      then have d: "workerPc s ! i = W_signal \<or> worker_done (startSignaled s ! i, workerPc s ! i)"
        using a(3) by (simp add: s')
      have "work_items (cfg_batchSize c) (cfg_count c) (int i) \<inter>
          work_items (cfg_batchSize c) (cfg_count c) (int wid) = {}"
      proof (cases "i < wid")
        case True
        then show ?thesis using widN by (intro work_items_disjoint K) simp_all
      next
        case False
        then have "wid < i" using \<open>i \<noteq> wid\<close> by simp
        then have "work_items (cfg_batchSize c) (cfg_count c) (int wid) \<inter>
          work_items (cfg_batchSize c) (cfg_count c) (int i) = {}"
          using iN by (intro work_items_disjoint K) simp_all
        then show ?thesis by blast
      qed
      then have "j \<notin> work_items (cfg_batchSize c) (cfg_count c) (int wid)" using j by blast
      then have "\<not> (run_startInd (cfg_batchSize c) (cfg_count c) (int wid) \<le> j \<and>
          j < run_endInd (cfg_batchSize c) (cfg_count c) (int wid))"
        by (simp add: work_items_def)
      then have "dst ! nat j = old ! nat j" using vj by auto
      moreover have "old ! nat j = cfg_xform c 0 (the (cfg_reader c (consumed s)) ! nat j)"
        unfolding old_def using I(5) m il d j by (rule inv_decodedD)
      ultimately show ?thesis using b(1) by simp
    qed
    then show "getForWrite (decodeBufs s') ! nat j =
          cfg_xform c 0 (the (cfg_reader c (consumed s')) ! nat j)"
      unfolding gw c' using b(1) by simp
  next
    assume "managerPc s' = M_copy"
    then show "getForWrite (decodeBufs s') =
        map (cfg_xform c 0) (the (cfg_reader c (consumed s')))"
      using m by (simp add: s')
  qed
  moreover have "inv_device c s' = inv_device c s"
    by (rule inv_device_cong) (simp_all add: s')
  moreover have "inv_trainer c s' = inv_trainer c s"
    by (rule inv_trainer_cong) (simp_all add: s')
  ultimately show ?thesis using I by (simp add: inv_def)
qed

lemma work_end_inv:
  assumes ok: "cfg_ok c" and i: "inv c s" and st: "work_end c wid s = Some s'"
    and w: "wid < length (workerPc s)" "workerPc s ! wid = W_signal"
  shows "inv c s'"
proof -
  note I = invD [OF i]
  note B = inv_barrierD [OF I(4)]
  have len: "length (startSignaled s) = length (workerPc s)" using B(1,2) by simp
  have m: "managerPc s = M_barrier" and z: "startSignaled s ! wid = 0"
    using worker_active(1,2) [OF I(4) w(1)] w(2) by simp_all
  have "done_count ((startSignaled s)[wid := startSignaled s ! wid])
          ((workerPc s)[wid := W_wait])
        = done_count (startSignaled s) (workerPc s) + 1"
    using w len z by (subst done_count_update) (simp_all add: worker_done_def)
  then have dc: "done_count (startSignaled s) ((workerPc s)[wid := W_wait])
        = done_count (startSignaled s) (workerPc s) + 1" by simp
  have "done_count (startSignaled s) ((workerPc s)[wid := W_wait])
      \<le> int (length ((workerPc s)[wid := W_wait]))"
    using len by (intro done_count_le) simp
  then have le: "endSignaled s + 1 \<le> cfg_count c" using dc B(2) B(6) [OF m] by simp
  have s': "s' = s\<lparr>endSignaled := endSignaled s + 1,
             workerPc := (workerPc s)[wid := W_wait], assert_failed := False\<rparr>"
    using st le B(3) unfolding work_end_def by simp
  have c': "consumed s' = consumed s" by (simp add: s' consumed_def)
  have r': "released s' = released s" by (simp add: s' released_def)
  have "inv_pools c s' = inv_pools c s"
    by (rule inv_pools_cong) (simp_all add: c' r', simp_all add: s')
  moreover have "inv_manager c s' = inv_manager c s"
    by (rule inv_manager_cong) (simp_all add: s')
  moreover have "inv_reader c s' = inv_reader c s"
    by (rule inv_reader_cong) (simp_all add: c', simp_all add: s')
  moreover have "inv_barrier c s'"
  proof -
    have "startSignaled s ! i = 0 \<or>
        startSignaled s ! i = 1 \<and> (workerPc s)[wid := W_wait] ! i = W_wait"
      if "i < length (workerPc s)" for i
      using B(7) [OF m that] that z by (cases "i = wid") simp_all
    then show ?thesis using B(1,2,3,8) B(6) [OF m] m dc by (simp add: inv_barrier_def s')
  qed
  moreover have "inv_decoded c s'"
    unfolding inv_decoded_def
  proof (intro conjI impI allI ballI)
    fix i j assume a: "managerPc s' = M_barrier" "i < length (workerPc s')"
      "workerPc s' ! i = W_signal \<or> worker_done (startSignaled s' ! i, workerPc s' ! i)"
      and j: "j \<in> work_items (cfg_batchSize c) (cfg_count c) (int i)"
    have il: "i < length (workerPc s)" using a(2) by (simp add: s')
    have d: "workerPc s ! i = W_signal \<or> worker_done (startSignaled s ! i, workerPc s ! i)"
      using a(3) w il by (cases "i = wid") (simp_all add: s')
    from inv_decodedD [OF I(5) m il d j]
    show "getForWrite (decodeBufs s') ! nat j =
          cfg_xform c 0 (the (cfg_reader c (consumed s')) ! nat j)"
      unfolding c' by (simp add: s')
  next
    assume "managerPc s' = M_copy"
    then show "getForWrite (decodeBufs s') =
        map (cfg_xform c 0) (the (cfg_reader c (consumed s')))"
      using m by (simp add: s')
  qed
  moreover have "inv_device c s' = inv_device c s"
    by (rule inv_device_cong) (simp_all add: s')
  moreover have "inv_trainer c s' = inv_trainer c s"
    by (rule inv_trainer_cong) (simp_all add: s')
  ultimately show ?thesis using I by (simp add: inv_def)
qed

lemma work_inv:
  assumes ok: "cfg_ok c" and i: "inv c s" and st: "work c wid s = Some s'"
  shows "inv c s'"
proof (cases "workerPc s ! wid")
  case W_wait
  then show ?thesis
    using work_start_inv [OF ok i work_SomeD(3) [OF st W_wait] work_SomeD(1) [OF st]] by simp
next
  case W_decode
  then show ?thesis
    using work_items_step_inv [OF ok i work_SomeD(4) [OF st W_decode] work_SomeD(1) [OF st]]
    by simp
next
  case W_signal
  then show ?thesis
    using work_end_inv [OF ok i work_SomeD(5) [OF st W_signal] work_SomeD(1) [OF st]] by simp
qed

subsection \<open>The trainer\<close>

lemma next_call_SomeD:
  assumes "next_call s = Some s'"
  shows "managerPc s \<noteq> M_barrier" "managerPc s \<noteq> M_copy"
    "first s \<Longrightarrow> s' = s\<lparr>first := False, decodeBufs := decodeBufs s,
        trainerPc := (if pool_empty (decodeBufs s) then T_wait else T_read)\<rparr>"
    "\<not> first s \<Longrightarrow> s' = s\<lparr>first := False,
        decodeBufs := signalNonFull (advanceReadPos (decodeBufs s)),
        trainerPc := (if pool_empty (signalNonFull (advanceReadPos (decodeBufs s)))
                      then T_wait else T_read)\<rparr>"
proof -
  have g: "\<not> (managerPc s = M_barrier \<or> managerPc s = M_copy)"
    using assms unfolding next_call_def by (meson option.distinct(1))
  then show "managerPc s \<noteq> M_barrier" "managerPc s \<noteq> M_copy" by simp_all
  show "s' = s\<lparr>first := False, decodeBufs := decodeBufs s,
        trainerPc := (if pool_empty (decodeBufs s) then T_wait else T_read)\<rparr>" if "first s"
    using assms g that unfolding next_call_def Let_def by simp
  show "s' = s\<lparr>first := False,
        decodeBufs := signalNonFull (advanceReadPos (decodeBufs s)),
        trainerPc := (if pool_empty (signalNonFull (advanceReadPos (decodeBufs s)))
                      then T_wait else T_read)\<rparr>" if "\<not> first s"
    using assms g that unfolding next_call_def Let_def by simp
qed

lemma next_call_inv:
  assumes ok: "cfg_ok c" and i: "inv c s" and st: "next_call s = Some s'"
    and pc: "trainerPc s = T_next"
  shows "inv c s'"
proof -
  note g = next_call_SomeD(1,2) [OF st]
  note I = invD [OF i]
  note P = inv_poolsD [OF I(1)]
  note Pout = pool_invD [OF P(2)]
  note T = inv_trainerD [OF I(7)]
  define bufs where "bufs = (if first s then decodeBufs s
                     else signalNonFull (advanceReadPos (decodeBufs s)))"
  define pc' where "pc' = (if pool_empty bufs then T_wait else T_read)"
  have s': "s' = s\<lparr>first := False, decodeBufs := bufs, trainerPc := pc'\<rparr>"
    using next_call_SomeD(3,4) [OF st] by (cases "first s") (simp_all add: bufs_def pc'_def)
  have pcs: "pc' = T_wait \<or> pc' = T_read" by (simp add: pc'_def)
  have c': "consumed s' = consumed s" by (simp add: s' consumed_def)
  have r': "released s' = trainer_i s" using pcs by (auto simp: s' released_def)
  have r: "released s = trainer_i s - 1" using pc by (simp add: released_def)
  have pool': "pool_inv (cfg_decodeSlots c) (published s) (trainer_i s) bufs"
  proof (cases "first s")
    case True
    then have "trainer_i s = 0" using T(1) by simp
    then show ?thesis using True P(2) r by (simp add: bufs_def)
  next
    case False
    then have i1: "0 < trainer_i s" using T(1) pc by simp
    have "trainer_i s \<le> published s" using T(3) pc by simp
    then have "0 < bp_used (decodeBufs s)" using Pout(6) r i1 by linarith
    with P(2) have "pool_inv (cfg_decodeSlots c) (published s) (Suc (released s))
        (advanceReadPos (decodeBufs s))" by (rule pool_inv_read)
    then show ?thesis using False r i1 by (simp add: bufs_def)
  qed
  have bsame: "bp_bufs bufs = bp_bufs (decodeBufs s)" by (simp add: bufs_def)
  have "inv_pools c s'"
    using P(1,3) pool' unfolding inv_pools_def c' r' by (simp add: s' bsame)
  moreover have "inv_manager c s'"
    using I(2) g by (simp add: inv_manager_def s')
  moreover have "inv_reader c s' = inv_reader c s"
    by (rule inv_reader_cong) (simp_all add: c', simp_all add: s')
  moreover have "inv_barrier c s' = inv_barrier c s"
    by (rule inv_barrier_cong) (simp_all add: s')
  moreover have "inv_decoded c s'"
    using g by (intro inv_decoded_idle) (simp_all add: s')
  moreover have "inv_device c s' = inv_device c s"
    by (rule inv_device_cong) (simp_all add: s')
  moreover have "inv_trainer c s'"
  proof -
    note Pb = pool_invD [OF pool']
    have "trainer_i s < published s" if "pc' = T_read"
    proof -
      have "bp_used bufs \<noteq> 0" using that by (auto simp: pc'_def pool_empty_def split: if_splits)
      then show ?thesis using Pb(4,6) by linarith
    qed
    then show ?thesis using pcs T(5,6) pc unfolding inv_trainer_def by (auto simp: s')
  qed
  ultimately show ?thesis using I by (simp add: inv_def)
qed

lemma next_wake_SomeD:
  assumes "next_wake s = Some s'"
  shows "managerPc s \<noteq> M_barrier" "managerPc s \<noteq> M_copy" "\<not> pool_empty (decodeBufs s)"
    "s' = s\<lparr>trainerPc := T_read\<rparr>"
proof -
  have g: "\<not> (managerPc s = M_barrier \<or> managerPc s = M_copy \<or> pool_empty (decodeBufs s))"
    using assms unfolding next_wake_def by (meson option.distinct(1))
  then show "managerPc s \<noteq> M_barrier" "managerPc s \<noteq> M_copy" "\<not> pool_empty (decodeBufs s)"
    by simp_all
  show "s' = s\<lparr>trainerPc := T_read\<rparr>"
    using assms g unfolding next_wake_def by simp
qed

lemma next_wake_inv:
  assumes ok: "cfg_ok c" and i: "inv c s" and st: "next_wake s = Some s'"
    and pc: "trainerPc s = T_wait"
  shows "inv c s'"
proof -
  note g = next_wake_SomeD(1,2,3) [OF st]
  note s' = next_wake_SomeD(4) [OF st]
  note I = invD [OF i]
  note Pout = pool_invD [OF inv_poolsD(2) [OF I(1)]]
  note T = inv_trainerD [OF I(7)]
  have c': "consumed s' = consumed s" by (simp add: s' consumed_def)
  have r: "released s = trainer_i s" using pc by (simp add: released_def)
  have r': "released s' = released s" using pc by (simp add: s' released_def)
  have "inv_pools c s' = inv_pools c s"
    by (rule inv_pools_cong) (simp_all add: c' r', simp_all add: s')
  moreover have "inv_manager c s' = inv_manager c s"
    by (rule inv_manager_cong) (simp_all add: s')
  moreover have "inv_reader c s' = inv_reader c s"
    by (rule inv_reader_cong) (simp_all add: c', simp_all add: s')
  moreover have "inv_barrier c s' = inv_barrier c s"
    by (rule inv_barrier_cong) (simp_all add: s')
  moreover have "inv_decoded c s' = inv_decoded c s"
    by (rule inv_decoded_cong) (simp_all add: c', simp_all add: s')
  moreover have "inv_device c s' = inv_device c s"
    by (rule inv_device_cong) (simp_all add: s')
  moreover have "inv_trainer c s'"
  proof -
    have "bp_used (decodeBufs s) \<noteq> 0" using g(3) by (simp add: pool_empty_def)
    then have "trainer_i s < published s" using Pout(4,6) r by linarith
    then show ?thesis using T(1,5,6) pc unfolding inv_trainer_def by (auto simp: s')
  qed
  ultimately show ?thesis using I by (simp add: inv_def)
qed

lemma multi_read_inv:
  assumes ok: "cfg_ok c" and i: "inv c s" and st: "multi_read c s = Some s'"
    and pc: "trainerPc s = T_read"
  shows "inv c s'"
proof -
  note I = invD [OF i]
  note Pout = pool_invD [OF inv_poolsD(2) [OF I(1)]]
  note M = inv_managerD [OF I(2)]
  note T = inv_trainerD [OF I(7)]
  define pc' where "pc' = (if trainer_i s + 1 < cfg_minibatchCount c then T_next else T_done)"
  have s': "s' = s\<lparr>observed := observed s @ [device s ! (trainer_i s mod 2)],
             trainer_i := trainer_i s + 1, trainerPc := pc'\<rparr>"
    using st unfolding multi_read_def pc'_def by simp
  have pcs: "pc' = T_next \<or> pc' = T_done" by (simp add: pc'_def)
  have c': "consumed s' = consumed s" by (simp add: s' consumed_def)
  have r: "released s = trainer_i s" using pc by (simp add: released_def)
  have r': "released s' = released s" using pcs r by (auto simp: s' released_def)
  have lt: "trainer_i s < published s" using T(2) pc by simp
  have "inv_pools c s' = inv_pools c s"
    by (rule inv_pools_cong) (simp_all add: c' r', simp_all add: s')
  moreover have "inv_manager c s' = inv_manager c s"
    by (rule inv_manager_cong) (simp_all add: s')
  moreover have "inv_reader c s' = inv_reader c s"
    by (rule inv_reader_cong) (simp_all add: c', simp_all add: s')
  moreover have "inv_barrier c s' = inv_barrier c s"
    by (rule inv_barrier_cong) (simp_all add: s')
  moreover have "inv_decoded c s' = inv_decoded c s"
    by (rule inv_decoded_cong) (simp_all add: c', simp_all add: s')
  moreover have "inv_device c s' = inv_device c s"
    by (rule inv_device_cong) (simp_all add: s')
  moreover have "inv_trainer c s'"
  proof -
    have up: "published s \<le> trainer_i s + (if managerPc s = M_copy then 1 else 2)"
    proof (cases "managerPc s = M_copy")
      case True
      then have "bp_used (decodeBufs s) < int (cfg_decodeSlots c)" using M(6) by simp
      then show ?thesis using True Pout(6) r cfg_okD(6) [OF ok] by simp
    next
      case False
      then show ?thesis using Pout(5,6) r cfg_okD(6) [OF ok] by simp
    qed
    have d: "device s ! (trainer_i s mod 2) = Some (single c (trainer_i s))"
      using I(6) lt up by (rule inv_deviceD)
    have nf: "\<not> first s" using T(1) pc by simp
    have k: "trainer_i s < cfg_minibatchCount c" using T(5) pc by simp
    have "pc' = T_done \<Longrightarrow> trainer_i s + 1 = cfg_minibatchCount c"
      using k by (simp add: pc'_def split: if_splits)
    moreover have "pc' \<noteq> T_done \<Longrightarrow> trainer_i s + 1 < cfg_minibatchCount c"
      by (simp add: pc'_def split: if_splits)
    ultimately show ?thesis using pcs T(6) lt d nf unfolding inv_trainer_def
      by (auto simp: s')
  qed
  ultimately show ?thesis using I by (simp add: inv_def)
qed

lemma multi_inv:
  assumes ok: "cfg_ok c" and i: "inv c s" and st: "multi c s = Some s'"
  shows "inv c s'"
  using st next_call_inv [OF ok i] next_wake_inv [OF ok i] multi_read_inv [OF ok i]
  unfolding multi_def by (cases "trainerPc s") simp_all

subsection \<open>Every interleaving keeps the invariant\<close>

lemma step_inv:
  assumes ok: "cfg_ok c" and i: "inv c s" and st: "step c ev s = Some s'"
  shows "inv c s'"
proof -
  have na: "\<not> assert_failed s" using inv_barrierD(3) [OF invD(4) [OF i]] .
  show ?thesis
  proof (cases ev)
    case Reader
    then show ?thesis using st na ReadThread_produce_inv [OF ok i] by (simp add: step_def)
  next
    case Manager
    then show ?thesis using st na manage_inv [OF ok i] by (simp add: step_def)
  next
    case (Worker wid)
    then show ?thesis using st na work_inv [OF ok i] by (simp add: step_def)
  next
    case Trainer
    then show ?thesis using st na multi_inv [OF ok i] by (simp add: step_def)
  qed
qed

lemma run_inv:
  assumes ok: "cfg_ok c"
  shows "inv c s \<Longrightarrow> run c evs s = Some s' \<Longrightarrow> inv c s'"
proof (induction evs arbitrary: s)
  case Nil
  then show ?case by simp
next
  case (Cons ev evs)
  then obtain s1 where s1: "step c ev s = Some s1" "run c evs s1 = Some s'"
    by (auto split: option.splits)
  have "inv c s1" using ok Cons.prems(1) s1(1) by (rule step_inv)
  then show ?case using s1(2) by (rule Cons.IH)
qed

lemma reachable_inv:
  assumes "cfg_ok c" "run c evs (sys_init c) = Some s"
  shows "inv c s"
  using assms(1) inv_init [OF assms(1)] assms(2) by (rule run_inv)


subsection \<open>A schedule that delivers every minibatch\<close>

lemma run_append:
  "run c (evs1 @ evs2) s = (case run c evs1 s of None \<Rightarrow> None | Some s1 \<Rightarrow> run c evs2 s1)"
  by (induction evs1 arbitrary: s) (auto split: option.splits)

lemma run_appendI:
  assumes "run c evs1 s = Some s1" "run c evs2 s1 = Some s2"
  shows "run c (evs1 @ evs2) s = Some s2"
  using assms by (simp add: run_append)

lemma run_single: "step c ev s = Some s' \<Longrightarrow> run c [ev] s = Some s'"
  by simp

lemma step_not_failed:
  "\<not> assert_failed s \<Longrightarrow> step c ev s =
     (case ev of Reader \<Rightarrow> ReadThread_produce c s | Manager \<Rightarrow> manage c s
      | Worker wid \<Rightarrow> work c wid s | Trainer \<Rightarrow> multi c s)"
  by (simp add: step_def)

lemma work_items_step_total: "\<exists>s'. work_items_step c wid s = Some s'"
  by (simp add: work_items_step_def split: option.splits)

lemma worker_round:
  assumes ok: "cfg_ok c" and w: "working c k j s" and j: "j < length (workerPc s)"
  shows "\<exists>s'. run c [Worker j, Worker j, Worker j] s = Some s' \<and> working c k (Suc j) s' \<and>
     length (workerPc s') = length (workerPc s)"
proof -
  have i0: "inv c s" and m0: "managerPc s = M_barrier" using w by (simp_all add: working_def)
  note B0 = inv_barrierD [OF invD(4) [OF i0]]
  have len: "length (startSignaled s) = length (workerPc s)" using B0(1,2) by simp
  have wj: "startSignaled s ! j = 1" "workerPc s ! j = W_wait"
    using w j by (simp_all add: working_def)
  note N0 = not_stoppingD [OF B0(8)]
  have ws: "j < length (workerStopped s)" "\<not> workerStopped s ! j"
    using N0(6) [of j] j B0(2) by simp_all
  \<comment> \<open>first step: the worker consumes its signal\<close>
  define s1 where "s1 = s\<lparr>startSignaled := (startSignaled s)[j := 0],
      workerPc := (workerPc s)[j := W_decode], assert_failed := False\<rparr>"
  have st1: "step c (Worker j) s = Some s1"
    using B0(3) j len wj N0(1) ws by (simp add: step_def work_def work_start_def s1_def)
  have i1: "inv c s1" using ok i0 st1 by (rule step_inv)
  \<comment> \<open>second step: the item loop\<close>
  have pc1: "workerPc s1 ! j = W_decode" "j < length (workerPc s1)" "j < length (startSignaled s1)"
    using j len by (simp_all add: s1_def)
  have na1: "\<not> assert_failed s1" by (simp add: s1_def)
  have ws1: "j < length (workerStopped s1)" "\<not> workerStopped s1 ! j"
    using ws by (simp_all add: s1_def)
  obtain s2 where "work_items_step c j s1 = Some s2"
    using work_items_step_total by blast
  then have st2: "step c (Worker j) s1 = Some s2"
    using pc1 na1 ws1 by (simp add: step_def work_def)
  have i2: "inv c s2" using ok i1 st2 by (rule step_inv)
  have na2: "\<not> assert_failed s2" using inv_barrierD(3) [OF invD(4) [OF i2]] .
  have w2: "work_items_step c j s1 = Some s2"
    using st2 pc1 na1 ws1 by (simp add: step_def work_def)
  have "\<exists>dst. s2 = s1\<lparr>decodeBufs := putForWrite dst (decodeBufs s1),
      workerPc := (workerPc s1)[j := W_signal]\<rparr>"
  proof (cases "inputBuf s1")
    case None
    then have "s2 = s1\<lparr>assert_failed := True\<rparr>" using w2 by (simp add: work_items_step_def)
    then show ?thesis using na2 by simp
  next
    case (Some ib)
    show ?thesis
    proof (cases "decode_loop (cfg_xform c) j (bp_bufs (readBufs s1) ! ib)
                 (run_startInd (cfg_batchSize c) (cfg_count c) (int j))
                 (run_endInd (cfg_batchSize c) (cfg_count c) (int j))
                 (getForWrite (decodeBufs s1))")
      case None
      then have "s2 = s1\<lparr>assert_failed := True\<rparr>"
        using w2 Some by (simp add: work_items_step_def)
      then show ?thesis using na2 by simp
    next
      case (Some dst)
      then have "s2 = s1\<lparr>decodeBufs := putForWrite dst (decodeBufs s1),
          workerPc := (workerPc s1)[j := W_signal]\<rparr>"
        using w2 \<open>inputBuf s1 = Some ib\<close> by (simp add: work_items_step_def)
      then show ?thesis by blast
    qed
  qed
  then obtain dst where s2: "s2 = s1\<lparr>decodeBufs := putForWrite dst (decodeBufs s1),
      workerPc := (workerPc s1)[j := W_signal]\<rparr>" by blast
  \<comment> \<open>third step: the worker reports completion\<close>
  have pc2: "workerPc s2 ! j = W_signal" "j < length (workerPc s2)" "j < length (startSignaled s2)"
    using j len by (simp_all add: s2 s1_def)
  have ws2: "j < length (workerStopped s2)" "\<not> workerStopped s2 ! j"
    using ws by (simp_all add: s2 s1_def)
  obtain s3 where st3: "step c (Worker j) s2 = Some s3"
    and s3: "s3 = s2\<lparr>endSignaled := endSignaled s2 + 1,
             workerPc := (workerPc s2)[j := W_wait],
             assert_failed := (assert_failed s2 \<or> \<not> endSignaled s2 + 1 \<le> cfg_count c)\<rparr>"
    using pc2 na2 ws2 by (simp add: step_def work_def work_end_def)
  have i3: "inv c s3" using ok i2 st3 by (rule step_inv)
  have run3: "run c [Worker j, Worker j, Worker j] s = Some s3"
    using st1 st2 st3 by simp
  have pcs: "workerPc s3 = (workerPc s)[j := W_wait]"
    "startSignaled s3 = (startSignaled s)[j := 0]"
    by (simp_all add: s3 s2 s1_def)
  have "working c k (Suc j) s3"
    unfolding working_def
  proof (intro conjI allI impI)
    show "inv c s3" by fact
    show "managerPc s3 = M_barrier" using m0 by (simp add: s3 s2 s1_def)
    show "\<not> rt_done s3" "\<not> fatal s3" "reads s3 = Suc k" "published s3 = k" "trainer_i s3 = k"
      "trainerPc s3 = T_wait"
      using w by (simp_all add: s3 s2 s1_def working_def)
    fix i assume "i < length (workerPc s3)"
    then have il: "i < length (workerPc s)" by (simp add: pcs)
    have old: "if i < j then startSignaled s ! i = 0 \<and> workerPc s ! i = W_wait
        else startSignaled s ! i = 1 \<and> workerPc s ! i = W_wait"
      using w il by (simp add: working_def)
    show "if i < Suc j then startSignaled s3 ! i = 0 \<and> workerPc s3 ! i = W_wait
        else startSignaled s3 ! i = 1 \<and> workerPc s3 ! i = W_wait"
    proof (cases "i = j")
      case True
      then show ?thesis using j len by (simp add: pcs)
    next
      case False
      then have "(i < Suc j) = (i < j)" by auto
      then show ?thesis using old False by (simp add: pcs)
    qed
  qed
  then show ?thesis using run3 by (auto simp: pcs)
qed

lemma workers_round:
  assumes ok: "cfg_ok c" and w: "working c k 0 s"
  shows "j \<le> length (workerPc s) \<Longrightarrow>
     \<exists>s'. run c (concat (map (\<lambda>wid. [Worker wid, Worker wid, Worker wid]) [0..<j])) s = Some s' \<and>
       working c k j s' \<and> length (workerPc s') = length (workerPc s)"
proof (induction j)
  case 0
  then show ?case using w by simp
next
  case (Suc j)
  then obtain s1 where
    r1: "run c (concat (map (\<lambda>wid. [Worker wid, Worker wid, Worker wid]) [0..<j])) s = Some s1"
    and w1: "working c k j s1" and l1: "length (workerPc s1) = length (workerPc s)"
    by auto
  have "j < length (workerPc s1)" using Suc.prems l1 by simp
  from worker_round [OF ok w1 this] obtain s2 where
    r2: "run c [Worker j, Worker j, Worker j] s1 = Some s2"
    and w2: "working c k (Suc j) s2" and l2: "length (workerPc s2) = length (workerPc s1)"
    by blast
  have "run c (concat (map (\<lambda>wid. [Worker wid, Worker wid, Worker wid]) [0..<j]) @
      [Worker j, Worker j, Worker j]) s = Some s2"
    using r1 r2 by (rule run_appendI)
  then show ?case using w2 l2 l1 by simp
qed

lemma done_count_full:
  assumes "length ss = length ps" "\<forall>i < length ps. ss ! i = 0 \<and> ps ! i = W_wait"
  shows "done_count ss ps = int (length ps)"
proof -
  have "filter worker_done (zip ss ps) = zip ss ps"
  proof (rule filter_True)
    show "\<forall>x\<in>set (zip ss ps). worker_done x"
      using assms by (auto simp: in_set_zip worker_done_def)
  qed
  then show ?thesis using assms(1) by (simp add: done_count_def)
qed

lemma round_robin_round:
  assumes ok: "cfg_ok c" and q: "quiet c k s" and k: "k < cfg_minibatchCount c"
    and rd: "cfg_reader c k \<noteq> None"
  shows "\<exists>s'. run c (round_robin (nat (cfg_count c))) s = Some s' \<and> quiet c (Suc k) s'"
proof -
  note K = cfg_okD [OF ok]
  have i0: "inv c s" and m0: "managerPc s = M_idle" and f0: "\<not> rt_done s" "\<not> fatal s"
    and n0: "reads s = k" "published s = k" "trainer_i s = k" and t0: "trainerPc s = T_next"
    using q k by (simp_all add: quiet_def)
  note I0 = invD [OF i0]
  note Pin0 = pool_invD [OF inv_poolsD(1) [OF I0(1)]]
  have na0: "\<not> assert_failed s" using inv_barrierD(3) [OF I0(4)] .
  \<comment> \<open>the reader fills a slot\<close>
  obtain bufs where b: "cfg_reader c k = Some bufs" using rd by blast
  have c0: "consumed s = k" using m0 n0 by (simp add: consumed_def)
  have "bp_used (readBufs s) = 0" using Pin0(6) c0 n0 by simp
  then have nf: "\<not> pool_full (readBufs s)" using Pin0(1) K(4) by (simp add: pool_full_def)
  define s1 where "s1 = s\<lparr>readBufs := signalNonEmpty (advanceWritePos (putForWrite bufs (readBufs s))),
                  reads := reads s + 1\<rparr>"
  have st1: "step c Reader s = Some s1"
    using na0 f0 m0 nf b n0 by (simp add: step_def ReadThread_produce_def s1_def)
  have i1: "inv c s1" using ok i0 st1 by (rule step_inv)
  note I1 = invD [OF i1]
  have na1: "\<not> assert_failed s1" using inv_barrierD(3) [OF I1(4)] .
  note N1 = not_stoppingD [OF inv_barrierD(8) [OF I1(4)]]
  \<comment> \<open>the manager pins it\<close>
  have "bp_used (readBufs s1) = 1" using \<open>bp_used (readBufs s) = 0\<close> by (simp add: s1_def)
  then have ne1: "\<not> pool_empty (readBufs s1)" by (simp add: pool_empty_def)
  define s2 where "s2 = s1\<lparr>inputBuf := Some (bp_readPos (readBufs s1)), managerPc := M_in\<rparr>"
  have st2: "step c Manager s1 = Some s2"
    using na1 m0 ne1 N1(2,3)
    by (simp add: step_def manage_def consume_begin_def s2_def s1_def)
  have i2: "inv c s2" using ok i1 st2 by (rule step_inv)
  note I2 = invD [OF i2]
  have na2: "\<not> assert_failed s2" using inv_barrierD(3) [OF I2(4)] .
  \<comment> \<open>the trainer calls next, releases the previous minibatch and waits\<close>
  have t2: "trainerPc s2 = T_next" "managerPc s2 = M_in" using t0 by (simp_all add: s2_def s1_def)
  obtain s3 where st3: "step c Trainer s2 = Some s3" and n3: "next_call s2 = Some s3"
    using na2 t2 by (simp add: step_def multi_def next_call_def Let_def)
  have i3: "inv c s3" using ok i2 st3 by (rule step_inv)
  note I3 = invD [OF i3]
  have na3: "\<not> assert_failed s3" using inv_barrierD(3) [OF I3(4)] .
  note N3 = not_stoppingD [OF inv_barrierD(8) [OF I3(4)]]
  have f3: "managerPc s3 = M_in" "reads s3 = Suc k" "published s3 = k" "trainer_i s3 = k"
    "\<not> rt_done s3" "\<not> fatal s3" "trainerPc s3 = T_wait \<or> trainerPc s3 = T_read"
    using next_call_SomeD(3,4) [OF n3] n0 f0 by (cases "first s2"; simp add: s2_def s1_def)+
  have t3: "trainerPc s3 = T_wait"
    using f3(7) inv_trainerD(2) [OF I3(7)] f3(3,4) by auto
  \<comment> \<open>the manager starts the round\<close>
  have r3: "released s3 = k" using t3 f3(4) by (simp add: released_def)
  note Pout3 = pool_invD [OF inv_poolsD(2) [OF I3(1)]]
  have "bp_used (decodeBufs s3) = 0" using Pout3(6) r3 f3(3) by simp
  then have nf3: "\<not> pool_full (decodeBufs s3)" using Pout3(1) K(5) by (simp add: pool_full_def)
  define s4 where "s4 = s3\<lparr>startSignaled := map (\<lambda>x. 1) (startSignaled s3), managerPc := M_barrier\<rparr>"
  have st4: "step c Manager s3 = Some s4"
    using na3 f3(1) nf3 N3(3) by (simp add: step_def manage_def produce_signal_def s4_def)
  have i4: "inv c s4" using ok i3 st4 by (rule step_inv)
  note B3 = inv_barrierD [OF I3(4)]
  have nb3: "managerPc s3 \<noteq> M_barrier" using f3(1) by simp
  have w4: "working c k 0 s4"
    unfolding working_def
  proof (intro conjI allI impI)
    show "inv c s4" by fact
    show "managerPc s4 = M_barrier" by (simp add: s4_def)
    show "\<not> rt_done s4" "\<not> fatal s4" "reads s4 = Suc k" "published s4 = k" "trainer_i s4 = k"
      "trainerPc s4 = T_wait"
      using f3 t3 by (simp_all add: s4_def)
    fix i assume "i < length (workerPc s4)"
    then have il: "i < length (workerPc s3)" by (simp add: s4_def)
    then have "i < length (startSignaled s3)" using B3(1,2) by simp
    then show "if i < 0 then startSignaled s4 ! i = 0 \<and> workerPc s4 ! i = W_wait
        else startSignaled s4 ! i = 1 \<and> workerPc s4 ! i = W_wait"
      using B3(5) [OF nb3 il] by (simp add: s4_def)
  qed
  \<comment> \<open>the workers decode\<close>
  have lw: "length (workerPc s4) = nat (cfg_count c)"
    using inv_barrierD(2) [OF invD(4) [OF i4]] by simp
  from workers_round [OF ok w4, of "nat (cfg_count c)"] lw obtain s5 where
    r5: "run c (concat (map (\<lambda>wid. [Worker wid, Worker wid, Worker wid]) [0..<nat (cfg_count c)])) s4
        = Some s5"
    and w5: "working c k (nat (cfg_count c)) s5"
    and l5: "length (workerPc s5) = nat (cfg_count c)"
    by auto
  have i5: "inv c s5" and f5: "managerPc s5 = M_barrier" "\<not> rt_done s5" "\<not> fatal s5"
    "reads s5 = Suc k" "published s5 = k" "trainer_i s5 = k" "trainerPc s5 = T_wait"
    using w5 by (simp_all add: working_def)
  note I5 = invD [OF i5]
  note B5 = inv_barrierD [OF I5(4)]
  have na5: "\<not> assert_failed s5" using B5(3) .
  \<comment> \<open>the manager collects, copies, publishes and releases the read slot\<close>
  have all5: "\<forall>i < length (workerPc s5). startSignaled s5 ! i = 0 \<and> workerPc s5 ! i = W_wait"
    using w5 l5 by (simp add: working_def)
  have "length (startSignaled s5) = length (workerPc s5)" using B5(1,2) by simp
  then have "done_count (startSignaled s5) (workerPc s5) = int (length (workerPc s5))"
    using all5 by (rule done_count_full)
  then have e5: "\<not> endSignaled s5 < cfg_count c" using B5(6) [OF f5(1)] B5(2) by simp
  define s6 where "s6 = s5\<lparr>endSignaled := 0, device := (device s5)[nat (bufferIndex s5) := None],
                   managerPc := M_copy\<rparr>"
  have st6: "step c Manager s5 = Some s6"
    using na5 f5(1) e5 not_stoppingD(3) [OF B5(8)]
    by (simp add: step_def manage_def produce_collect_def s6_def)
  have i6: "inv c s6" using ok i5 st6 by (rule step_inv)
  have na6: "\<not> assert_failed s6" using inv_barrierD(3) [OF invD(4) [OF i6]] .
  define s7 where "s7 = s6\<lparr>device := (device s6)[nat (bufferIndex s6) :=
                               Some (cfg_transpose c (getForWrite (decodeBufs s6)))],
                   bufferIndex := (if bufferIndex s6 = 0 then 1 else 0),
                   decodeBufs := signalNonEmpty (advanceWritePos (decodeBufs s6)),
                   published := published s6 + 1,
                   managerPc := M_release\<rparr>"
  have st7: "step c Manager s6 = Some s7"
    using na6 not_stoppingD(3) [OF inv_barrierD(8) [OF invD(4) [OF i6]]]
    by (simp add: step_def manage_def produce_publish_def s7_def s6_def)
  have i7: "inv c s7" using ok i6 st7 by (rule step_inv)
  have na7: "\<not> assert_failed s7" using inv_barrierD(3) [OF invD(4) [OF i7]] .
  define s8 where "s8 = s7\<lparr>readBufs := signalNonFull (advanceReadPos (readBufs s7)),
      managerPc := M_idle\<rparr>"
  have st8: "step c Manager s7 = Some s8"
    using na7 not_stoppingD(3) [OF inv_barrierD(8) [OF invD(4) [OF i7]]]
    by (simp add: step_def manage_def consume_end_def s8_def s7_def)
  have i8: "inv c s8" using ok i7 st8 by (rule step_inv)
  note I8 = invD [OF i8]
  have na8: "\<not> assert_failed s8" using inv_barrierD(3) [OF I8(4)] .
  have f8: "managerPc s8 = M_idle" "\<not> rt_done s8" "\<not> fatal s8"
    "reads s8 = Suc k" "published s8 = Suc k" "trainer_i s8 = k" "trainerPc s8 = T_wait"
    using f5 by (simp_all add: s8_def s7_def s6_def)
  \<comment> \<open>the trainer wakes up and reads the device\<close>
  have r8: "released s8 = k" using f8 by (simp add: released_def)
  note Pout8 = pool_invD [OF inv_poolsD(2) [OF I8(1)]]
  have "bp_used (decodeBufs s8) = 1" using Pout8(6) r8 f8(5) by simp
  then have ne8: "\<not> pool_empty (decodeBufs s8)" by (simp add: pool_empty_def)
  define s9 where "s9 = s8\<lparr>trainerPc := T_read\<rparr>"
  have st9: "step c Trainer s8 = Some s9"
    using na8 f8 ne8 by (simp add: step_def multi_def next_wake_def s9_def)
  have i9: "inv c s9" using ok i8 st9 by (rule step_inv)
  have na9: "\<not> assert_failed s9" using inv_barrierD(3) [OF invD(4) [OF i9]] .
  define s10 where "s10 = s9\<lparr>observed := observed s9 @ [device s9 ! (trainer_i s9 mod 2)],
             trainer_i := trainer_i s9 + 1,
             trainerPc := (if trainer_i s9 + 1 < cfg_minibatchCount c then T_next else T_done)\<rparr>"
  have st10: "step c Trainer s9 = Some s10"
    using na9 by (simp add: step_def multi_def multi_read_def s10_def s9_def)
  have i10: "inv c s10" using ok i9 st10 by (rule step_inv)
  have q10: "quiet c (Suc k) s10"
    using i10 f8 by (simp add: quiet_def s10_def s9_def)
  have a: "run c [Reader, Manager, Trainer, Manager] s = Some s4"
    using st1 st2 st3 st4 by simp
  have z: "run c [Manager, Manager, Manager, Trainer, Trainer] s5 = Some s10"
    using st6 st7 st8 st9 st10 by simp
  have "run c (round_robin (nat (cfg_count c))) s = Some s10"
    unfolding round_robin_def by (rule run_appendI [OF a run_appendI [OF r5 z]])
  then show ?thesis using q10 by blast
qed

lemma round_robin_rounds:
  assumes ok: "cfg_ok c" and rd: "\<forall>k < cfg_minibatchCount c. cfg_reader c k \<noteq> None"
  shows "n \<le> cfg_minibatchCount c \<Longrightarrow>
    \<exists>s. run c (concat (replicate n (round_robin (nat (cfg_count c))))) (sys_init c) = Some s \<and>
      quiet c n s"
proof (induction n)
  case 0
  have "quiet c 0 (sys_init c)"
    using inv_init [OF ok] by (simp add: quiet_def) (simp add: sys_init_def)
  then show ?case by simp
next
  case (Suc n)
  then obtain s where r: "run c (concat (replicate n (round_robin (nat (cfg_count c)))))
      (sys_init c) = Some s" and q: "quiet c n s" by auto
  have n: "n < cfg_minibatchCount c" using Suc.prems by simp
  then have "cfg_reader c n \<noteq> None" using rd by simp
  from round_robin_round [OF ok q n this] obtain s' where
    r': "run c (round_robin (nat (cfg_count c))) s = Some s'" and q': "quiet c (Suc n) s'"
    by blast
  have "run c (concat (replicate n (round_robin (nat (cfg_count c)))) @
      round_robin (nat (cfg_count c))) (sys_init c) = Some s'"
    using r r' by (rule run_appendI)
  moreover have "concat (replicate (Suc n) (round_robin (nat (cfg_count c)))) =
      concat (replicate n (round_robin (nat (cfg_count c)))) @ round_robin (nat (cfg_count c))"
  proof -
    have e: "replicate (Suc n) (round_robin (nat (cfg_count c))) =
        replicate n (round_robin (nat (cfg_count c))) @ [round_robin (nat (cfg_count c))]"
      by (simp add: replicate_append_same)
    show ?thesis unfolding e by simp
  qed
  ultimately show ?case using q' by auto
qed

subsection \<open>Runs with a thread that calls stop\<close>

lemma run_stop_Pipeline: "run_stop c (map Pipeline evs) s = run c evs s"
  by (induction evs arbitrary: s) (simp_all add: step_stop_def split: option.splits)

lemma ReadThread_produce_stopPc:
  assumes "ReadThread_produce c s = Some s'"
  shows "stopPc s' = stopPc s"
proof (cases "cfg_reader c (reads s)")
  case None
  from ReadThread_produce_SomeD(4) [OF assms None] show ?thesis by simp
next
  case (Some bufs)
  from ReadThread_produce_SomeD(5) [OF assms Some] show ?thesis by simp
qed

lemma manage_stopPc:
  assumes "manage c s = Some s'"
  shows "stopPc s' = stopPc s"
proof -
  have ns: "\<not> managerStopped s"
    using assms unfolding manage_def by (meson option.distinct(1))
  note st = assms [unfolded manage_normal [OF ns]]
  show ?thesis
  proof (cases "managerPc s")
    case M_idle
    then have cb: "consume_begin s = Some s'" using st by simp
    show ?thesis
    proof (cases "stopManager s")
      case True
      then have "s' = s\<lparr>managerStopped := True\<rparr>"
        using cb M_idle by (simp add: consume_begin_def)
      then show ?thesis by simp
    next
      case False
      from consume_begin_SomeD(3) [OF cb False] show ?thesis by simp
    qed
  next
    case M_in
    then have "produce_signal s = Some s'" using st by simp
    from produce_signal_SomeD(3) [OF this] show ?thesis by simp
  next
    case M_barrier
    then have "produce_collect c s = Some s'" using st by simp
    from produce_collect_SomeD(3) [OF this] show ?thesis by simp
  next
    case M_copy
    then have "produce_publish c s = Some s'" using st by simp
    from produce_publish_SomeD(2) [OF this] show ?thesis by simp
  next
    case M_release
    then have "consume_end s = Some s'" using st by simp
    from consume_end_SomeD(2) [OF this] show ?thesis by simp
  qed
qed

lemma work_items_step_SomeD:
  assumes "work_items_step c wid s = Some s'"
  shows "s' = s\<lparr>assert_failed := True\<rparr> \<or>
    (\<exists>dst. s' = s\<lparr>decodeBufs := putForWrite dst (decodeBufs s),
                   workerPc := (workerPc s)[wid := W_signal]\<rparr>)"
proof (cases "inputBuf s")
  case None
  then show ?thesis using assms by (simp add: work_items_step_def)
next
  case (Some ib)
  show ?thesis
  proof (cases "decode_loop (cfg_xform c) wid (bp_bufs (readBufs s) ! ib)
                 (run_startInd (cfg_batchSize c) (cfg_count c) (int wid))
                 (run_endInd (cfg_batchSize c) (cfg_count c) (int wid))
                 (getForWrite (decodeBufs s))")
    case None
    then show ?thesis using assms Some by (simp add: work_items_step_def)
  next
    case (Some dst)
    then have "s' = s\<lparr>decodeBufs := putForWrite dst (decodeBufs s),
          workerPc := (workerPc s)[wid := W_signal]\<rparr>"
      using assms \<open>inputBuf s = Some ib\<close> by (simp add: work_items_step_def)
    then show ?thesis by blast
  qed
qed

lemma work_stopPc:
  assumes "work c wid s = Some s'"
  shows "stopPc s' = stopPc s"
proof (cases "workerPc s ! wid")
  case W_wait
  have ws: "work_start wid s = Some s'" using work_SomeD(3) [OF assms W_wait] .
  show ?thesis
  proof (cases "pool_done s")
    case True
    then have "s' = s\<lparr>workerStopped := (workerStopped s)[wid := True]\<rparr>"
      using ws by (simp add: work_start_def)
    then show ?thesis by simp
  next
    case False
    from work_start_SomeD(2) [OF ws False] show ?thesis by simp
  qed
next
  case W_decode
  from work_items_step_SomeD [OF work_SomeD(4) [OF assms W_decode]]
  show ?thesis by auto
next
  case W_signal
  have "work_end c wid s = Some s'" using work_SomeD(5) [OF assms W_signal] .
  then have "s' = s\<lparr>endSignaled := endSignaled s + 1,
             workerPc := (workerPc s)[wid := W_wait],
             assert_failed := (assert_failed s \<or> \<not> endSignaled s + 1 \<le> cfg_count c)\<rparr>"
    by (simp add: work_end_def)
  then show ?thesis by simp
qed

lemma multi_stopPc:
  assumes "multi c s = Some s'"
  shows "stopPc s' = stopPc s"
proof (cases "trainerPc s")
  case T_next
  then have n: "next_call s = Some s'" using assms by (simp add: multi_def)
  show ?thesis using next_call_SomeD(3,4) [OF n] by (cases "first s") simp_all
next
  case T_wait
  then have "next_wake s = Some s'" using assms by (simp add: multi_def)
  from next_wake_SomeD(4) [OF this] show ?thesis by simp
next
  case T_read
  then have "s' = s\<lparr>observed := observed s @ [device s ! (trainer_i s mod 2)],
             trainer_i := trainer_i s + 1,
             trainerPc := (if trainer_i s + 1 < cfg_minibatchCount c then T_next else T_done)\<rparr>"
    using assms by (simp add: multi_def multi_read_def)
  then show ?thesis by simp
next
  case T_done
  then show ?thesis using assms by (simp add: multi_def)
qed

lemma step_stopPc:
  assumes "step c ev s = Some s'"
  shows "stopPc s' = stopPc s"
proof (cases ev)
  case Reader
  then have "ReadThread_produce c s = Some s'" using assms by (simp add: step_def split: if_splits)
  then show ?thesis by (rule ReadThread_produce_stopPc)
next
  case Manager
  then have "manage c s = Some s'" using assms by (simp add: step_def split: if_splits)
  then show ?thesis by (rule manage_stopPc)
next
  case (Worker wid)
  then have "work c wid s = Some s'" using assms by (simp add: step_def split: if_splits)
  then show ?thesis by (rule work_stopPc)
next
  case Trainer
  then have "multi c s = Some s'" using assms by (simp add: step_def split: if_splits)
  then show ?thesis by (rule multi_stopPc)
qed

text \<open>Once \<^verbatim>\<open>stop\<close> has been called it stays called.\<close>

lemma DecodeThreadPool_stop_called:
  assumes "DecodeThreadPool_stop s = Some s'"
  shows "stopPc s' \<noteq> S_idle"
  using assms by (cases "stopPc s") (auto simp: DecodeThreadPool_stop_def split: if_splits)

lemma step_stop_called:
  assumes "step_stop c ev s = Some s'" "stopPc s \<noteq> S_idle \<or> ev = Stop"
  shows "stopPc s' \<noteq> S_idle"
proof (cases ev)
  case (Pipeline e)
  then have "step c e s = Some s'" using assms(1) by (simp add: step_stop_def)
  from step_stopPc [OF this] show ?thesis using assms(2) Pipeline by simp
next
  case Stop
  then have "DecodeThreadPool_stop s = Some s'"
    using assms(1) by (simp add: step_stop_def split: if_splits)
  then show ?thesis by (rule DecodeThreadPool_stop_called)
qed

lemma run_stop_called:
  "run_stop c evs s = Some s' \<Longrightarrow> stopPc s \<noteq> S_idle \<Longrightarrow> stopPc s' \<noteq> S_idle"
proof (induction evs arbitrary: s)
  case Nil
  then show ?case by simp
next
  case (Cons ev evs)
  then obtain s1 where s1: "step_stop c ev s = Some s1" "run_stop c evs s1 = Some s'"
    by (auto split: option.splits)
  have "stopPc s1 \<noteq> S_idle" using step_stop_called [OF s1(1)] Cons.prems(2) by blast
  with s1(2) show ?case by (rule Cons.IH)
qed

text \<open>A run at whose end \<^verbatim>\<open>stop\<close> has not been called is a run of normal operation.\<close>

lemma run_stop_idle:
  "run_stop c evs s = Some s' \<Longrightarrow> stopPc s' = S_idle \<Longrightarrow>
     \<exists>evs'. evs = map Pipeline evs' \<and> run c evs' s = Some s'"
proof (induction evs arbitrary: s)
  case Nil
  then show ?case by simp
next
  case (Cons ev evs)
  then obtain s1 where s1: "step_stop c ev s = Some s1" "run_stop c evs s1 = Some s'"
    by (auto split: option.splits)
  from Cons.IH [OF s1(2) Cons.prems(2)] obtain evs' where
    e: "evs = map Pipeline evs'" "run c evs' s1 = Some s'" by blast
  have "stopPc s1 = S_idle" using run_stop_called [OF s1(2)] Cons.prems(2) by blast
  then have "ev \<noteq> Stop" using step_stop_called [OF s1(1)] by blast
  then obtain e0 where e0: "ev = Pipeline e0" by (cases ev) simp_all
  then have "step c e0 s = Some s1" using s1(1) by (simp add: step_stop_def)
  then have a: "run c (e0 # evs') s = Some s'" using e(2) by simp
  have b: "ev # evs = map Pipeline (e0 # evs')" using e0 e(1) by simp
  show ?case by (intro exI [of _ "e0 # evs'"] conjI b a)
qed

subsection \<open>The steps of a decode round\<close>

text \<open>What each step of a round does in a state of normal operation.\<close>

lemma manager_signal_step:
  assumes ok: "cfg_ok c" and i: "inv c s" and m: "managerPc s = M_in"
  shows "step c Manager s =
     (if pool_full (decodeBufs s) then None
      else Some (s\<lparr>startSignaled := replicate (nat (cfg_count c)) 1, managerPc := M_barrier\<rparr>))"
proof -
  note B = inv_barrierD [OF invD(4) [OF i]]
  note N = not_stoppingD [OF B(8)]
  have "length (startSignaled s) = nat (cfg_count c)" using B(1) by simp
  then have "map (\<lambda>x. 1) (startSignaled s) = replicate (nat (cfg_count c)) (1 :: int)"
    by (simp add: map_replicate_const)
  then show ?thesis
    using B(3) N(3) m by (simp add: step_def manage_def produce_signal_def)
qed

lemma worker_start_step:
  assumes ok: "cfg_ok c" and i: "inv c s" and w: "wid < length (workerPc s)"
    and pc: "workerPc s ! wid = W_wait"
  shows "step c (Worker wid) s =
     (if startSignaled s ! wid = 1
      then Some (s\<lparr>startSignaled := (startSignaled s)[wid := 0],
                   workerPc := (workerPc s)[wid := W_decode]\<rparr>)
      else None)"
proof -
  note B = inv_barrierD [OF invD(4) [OF i]]
  note N = not_stoppingD [OF B(8)]
  have len: "wid < length (startSignaled s)" using B(1,2) w by simp
  have ws: "wid < length (workerStopped s)" "\<not> workerStopped s ! wid"
    using N(6) [of wid] w B(2) by simp_all
  have st: "step c (Worker wid) s = work_start wid s"
    using B(3) w len ws pc by (simp add: step_def work_def)
  show ?thesis
  proof (cases "startSignaled s ! wid = 0")
    case True
    then show ?thesis using st N(1) by (simp add: work_start_def)
  next
    case False
    then have one: "startSignaled s ! wid = 1"
      using worker_active(3) [OF invD(4) [OF i] w] by simp
    have "s\<lparr>startSignaled := (startSignaled s)[wid := 0],
            workerPc := (workerPc s)[wid := W_decode], assert_failed := False\<rparr>
        = s\<lparr>startSignaled := (startSignaled s)[wid := 0],
            workerPc := (workerPc s)[wid := W_decode]\<rparr>"
      using B(3) by simp
    then show ?thesis using st N(1) one by (simp add: work_start_def)
  qed
qed

lemma worker_decode_step:
  assumes ok: "cfg_ok c" and i: "inv c s" and w: "wid < length (workerPc s)"
    and pc: "workerPc s ! wid = W_decode"
  shows "\<exists>dst. step c (Worker wid) s =
     Some (s\<lparr>decodeBufs := putForWrite dst (decodeBufs s),
             workerPc := (workerPc s)[wid := W_signal]\<rparr>)"
proof -
  note B = inv_barrierD [OF invD(4) [OF i]]
  note N = not_stoppingD [OF B(8)]
  have len: "wid < length (startSignaled s)" using B(1,2) w by simp
  have ws: "wid < length (workerStopped s)" "\<not> workerStopped s ! wid"
    using N(6) [of wid] w B(2) by simp_all
  obtain s' where s': "work_items_step c wid s = Some s'"
    using work_items_step_total by blast
  then have st: "step c (Worker wid) s = Some s'"
    using B(3) w len ws pc by (simp add: step_def work_def)
  have "inv c s'" using ok i st by (rule step_inv)
  then have "\<not> assert_failed s'" using inv_barrierD(3) [OF invD(4)] by blast
  then have "\<exists>dst. s' = s\<lparr>decodeBufs := putForWrite dst (decodeBufs s),
                   workerPc := (workerPc s)[wid := W_signal]\<rparr>"
    using work_items_step_SomeD [OF s'] by auto
  then show ?thesis using st by auto
qed

lemma worker_end_step:
  assumes ok: "cfg_ok c" and i: "inv c s" and w: "wid < length (workerPc s)"
    and pc: "workerPc s ! wid = W_signal"
  shows "endSignaled s < cfg_count c \<and>
     step c (Worker wid) s =
       Some (s\<lparr>endSignaled := endSignaled s + 1, workerPc := (workerPc s)[wid := W_wait]\<rparr>)"
proof -
  note B = inv_barrierD [OF invD(4) [OF i]]
  note N = not_stoppingD [OF B(8)]
  have len: "wid < length (startSignaled s)" using B(1,2) w by simp
  have ws: "wid < length (workerStopped s)" "\<not> workerStopped s ! wid"
    using N(6) [of wid] w B(2) by simp_all
  define s' where "s' = s\<lparr>endSignaled := endSignaled s + 1,
             workerPc := (workerPc s)[wid := W_wait],
             assert_failed := (assert_failed s \<or> \<not> endSignaled s + 1 \<le> cfg_count c)\<rparr>"
  have st: "step c (Worker wid) s = Some s'"
    using B(3) w len ws pc by (simp add: step_def work_def work_end_def s'_def)
  have "inv c s'" using ok i st by (rule step_inv)
  then have "\<not> assert_failed s'" using inv_barrierD(3) [OF invD(4)] by blast
  then have le: "endSignaled s + 1 \<le> cfg_count c" by (simp add: s'_def)
  then have "s' = s\<lparr>endSignaled := endSignaled s + 1, workerPc := (workerPc s)[wid := W_wait]\<rparr>"
    using B(3) by (simp add: s'_def)
  then show ?thesis using st le by simp
qed

lemma manager_collect_step:
  assumes ok: "cfg_ok c" and i: "inv c s" and m: "managerPc s = M_barrier"
  shows "endSignaled s \<le> cfg_count c"
    and "endSignaled s = cfg_count c \<longleftrightarrow>
       (\<forall>i < length (workerPc s). startSignaled s ! i = 0 \<and> workerPc s ! i = W_wait)"
    and "step c Manager s =
     (if endSignaled s = cfg_count c
      then Some (s\<lparr>endSignaled := 0, device := (device s)[nat (bufferIndex s) := None],
                   managerPc := M_copy\<rparr>)
      else None)"
proof -
  note B = inv_barrierD [OF invD(4) [OF i]]
  note N = not_stoppingD [OF B(8)]
  have len: "length (startSignaled s) = length (workerPc s)" using B(1,2) by simp
  have e: "endSignaled s = done_count (startSignaled s) (workerPc s)" using B(6) [OF m] .
  show le: "endSignaled s \<le> cfg_count c"
    using done_count_le [OF len] e B(2) by simp
  show "endSignaled s = cfg_count c \<longleftrightarrow>
       (\<forall>i < length (workerPc s). startSignaled s ! i = 0 \<and> workerPc s ! i = W_wait)"
  proof
    assume "endSignaled s = cfg_count c"
    then have "int (length (workerPc s)) \<le> done_count (startSignaled s) (workerPc s)"
      using e B(2) by simp
    then show "\<forall>i < length (workerPc s). startSignaled s ! i = 0 \<and> workerPc s ! i = W_wait"
      using done_count_all [OF _ len] by blast
  next
    assume "\<forall>i < length (workerPc s). startSignaled s ! i = 0 \<and> workerPc s ! i = W_wait"
    with len have "done_count (startSignaled s) (workerPc s) = int (length (workerPc s))"
      by (rule done_count_full)
    then show "endSignaled s = cfg_count c" using e B(2) by simp
  qed
  show "step c Manager s =
     (if endSignaled s = cfg_count c
      then Some (s\<lparr>endSignaled := 0, device := (device s)[nat (bufferIndex s) := None],
                   managerPc := M_copy\<rparr>)
      else None)"
    using B(3) N(3) m le by (auto simp add: step_def manage_def produce_collect_def)
qed

subsection \<open>Every round can be completed\<close>

lemma worker_finish:
  assumes ok: "cfg_ok c" and i: "inv c s" and m: "managerPc s = M_barrier"
    and w: "wid < length (workerPc s)"
  shows "\<exists>n s'. run c (replicate n (Worker wid)) s = Some s' \<and> inv c s' \<and>
     managerPc s' = M_barrier \<and>
     startSignaled s' = (startSignaled s)[wid := 0] \<and>
     workerPc s' = (workerPc s)[wid := W_wait]"
proof -
  have fin: "\<exists>n s'. run c (replicate n (Worker wid)) s = Some s' \<and> inv c s' \<and>
       managerPc s' = M_barrier \<and> startSignaled s' = startSignaled s \<and>
       workerPc s' = (workerPc s)[wid := W_wait]"
    if i: "inv c s" and m: "managerPc s = M_barrier" and w: "wid < length (workerPc s)"
      and pc: "workerPc s ! wid = W_signal" for s :: "('a, 'b, 'c) sys"
  proof -
    define s' where "s' = s\<lparr>endSignaled := endSignaled s + 1,
        workerPc := (workerPc s)[wid := W_wait]\<rparr>"
    have st: "step c (Worker wid) s = Some s'"
      using worker_end_step [OF ok i w pc] by (simp add: s'_def)
    have "inv c s'" using ok i st by (rule step_inv)
    moreover have "run c (replicate 1 (Worker wid)) s = Some s'" using st by simp
    ultimately show ?thesis using m by (intro exI [of _ 1] exI [of _ s']) (simp add: s'_def)
  qed
  have dec: "\<exists>n s'. run c (replicate n (Worker wid)) s = Some s' \<and> inv c s' \<and>
       managerPc s' = M_barrier \<and> startSignaled s' = startSignaled s \<and>
       workerPc s' = (workerPc s)[wid := W_wait]"
    if i: "inv c s" and m: "managerPc s = M_barrier" and w: "wid < length (workerPc s)"
      and pc: "workerPc s ! wid = W_decode" for s :: "('a, 'b, 'c) sys"
  proof -
    obtain dst where st: "step c (Worker wid) s =
        Some (s\<lparr>decodeBufs := putForWrite dst (decodeBufs s),
                workerPc := (workerPc s)[wid := W_signal]\<rparr>)"
      using worker_decode_step [OF ok i w pc] by blast
    define s1 where "s1 = s\<lparr>decodeBufs := putForWrite dst (decodeBufs s),
                workerPc := (workerPc s)[wid := W_signal]\<rparr>"
    have st1: "step c (Worker wid) s = Some s1" using st by (simp add: s1_def)
    have i1: "inv c s1" using ok i st1 by (rule step_inv)
    have f1: "managerPc s1 = M_barrier" "wid < length (workerPc s1)" "workerPc s1 ! wid = W_signal"
      using m w by (simp_all add: s1_def)
    from fin [OF i1 f1] obtain n s' where
      r: "run c (replicate n (Worker wid)) s1 = Some s'" "inv c s'" "managerPc s' = M_barrier"
        "startSignaled s' = startSignaled s1" "workerPc s' = (workerPc s1)[wid := W_wait]"
      by blast
    have "run c (replicate (Suc n) (Worker wid)) s = Some s'" using st1 r(1) by simp
    moreover have "startSignaled s' = startSignaled s" using r(4) by (simp add: s1_def)
    moreover have "workerPc s' = (workerPc s)[wid := W_wait]" using r(5) by (simp add: s1_def)
    ultimately show ?thesis using r(2,3) by blast
  qed
  note B = inv_barrierD [OF invD(4) [OF i]]
  have len: "wid < length (startSignaled s)" using B(1,2) w by simp
  show ?thesis
  proof (cases "workerPc s ! wid")
    case W_wait
    show ?thesis
    proof (cases "startSignaled s ! wid = 1")
      case True
      define s1 where "s1 = s\<lparr>startSignaled := (startSignaled s)[wid := 0],
                   workerPc := (workerPc s)[wid := W_decode]\<rparr>"
      have st1: "step c (Worker wid) s = Some s1"
        using worker_start_step [OF ok i w W_wait] True by (simp add: s1_def)
      have i1: "inv c s1" using ok i st1 by (rule step_inv)
      have f1: "managerPc s1 = M_barrier" "wid < length (workerPc s1)"
        "workerPc s1 ! wid = W_decode"
        using m w by (simp_all add: s1_def)
      from dec [OF i1 f1] obtain n s' where
        r: "run c (replicate n (Worker wid)) s1 = Some s'" "inv c s'" "managerPc s' = M_barrier"
          "startSignaled s' = startSignaled s1" "workerPc s' = (workerPc s1)[wid := W_wait]"
        by blast
      have "run c (replicate (Suc n) (Worker wid)) s = Some s'" using st1 r(1) by simp
      moreover have "startSignaled s' = (startSignaled s)[wid := 0]"
        using r(4) by (simp add: s1_def)
      moreover have "workerPc s' = (workerPc s)[wid := W_wait]" using r(5) by (simp add: s1_def)
      ultimately show ?thesis using r(2,3) by blast
    next
      case False
      then have z: "startSignaled s ! wid = 0" using B(7) [OF m w] by blast
      have "(startSignaled s)[wid := 0] = startSignaled s"
        using z list_update_id [of "startSignaled s" wid] by simp
      moreover have "(workerPc s)[wid := W_wait] = workerPc s"
        using W_wait list_update_id [of "workerPc s" wid] by simp
      moreover have "run c (replicate 0 (Worker wid)) s = Some s" by simp
      ultimately show ?thesis using i m by metis
    qed
  next
    case W_decode
    have z: "startSignaled s ! wid = 0"
      using worker_active(2) [OF invD(4) [OF i] w] W_decode by simp
    have e: "(startSignaled s)[wid := 0] = startSignaled s"
      using z list_update_id [of "startSignaled s" wid] by simp
    show ?thesis using dec [OF i m w W_decode] unfolding e .
  next
    case W_signal
    have z: "startSignaled s ! wid = 0"
      using worker_active(2) [OF invD(4) [OF i] w] W_signal by simp
    have e: "(startSignaled s)[wid := 0] = startSignaled s"
      using z list_update_id [of "startSignaled s" wid] by simp
    show ?thesis using fin [OF i m w W_signal] unfolding e .
  qed
qed

lemma workers_finish:
  assumes ok: "cfg_ok c" and i: "inv c s" and m: "managerPc s = M_barrier"
  shows "j \<le> length (workerPc s) \<Longrightarrow>
     \<exists>evs s'. run c evs s = Some s' \<and> inv c s' \<and> managerPc s' = M_barrier \<and>
       Manager \<notin> set evs \<and> length (workerPc s') = length (workerPc s) \<and>
       (\<forall>i < j. startSignaled s' ! i = 0 \<and> workerPc s' ! i = W_wait)"
proof (induction j)
  case 0
  have "run c [] s = Some s" by simp
  then show ?case using i m by (intro exI [of _ "[]"] exI [of _ s]) simp
next
  case (Suc j)
  then obtain evs s1 where r1: "run c evs s = Some s1" and i1: "inv c s1"
    and m1: "managerPc s1 = M_barrier" and e1: "Manager \<notin> set evs"
    and l1: "length (workerPc s1) = length (workerPc s)"
    and d1: "\<forall>i < j. startSignaled s1 ! i = 0 \<and> workerPc s1 ! i = W_wait"
    by auto
  have w: "j < length (workerPc s1)" using Suc.prems l1 by simp
  from worker_finish [OF ok i1 m1 w] obtain n s2 where
    r2: "run c (replicate n (Worker j)) s1 = Some s2" and i2: "inv c s2"
    and m2: "managerPc s2 = M_barrier"
    and f2: "startSignaled s2 = (startSignaled s1)[j := 0]"
      "workerPc s2 = (workerPc s1)[j := W_wait]"
    by blast
  note B1 = inv_barrierD [OF invD(4) [OF i1]]
  have ls: "j < length (startSignaled s1)" using B1(1,2) w by simp
  have "run c (evs @ replicate n (Worker j)) s = Some s2" using r1 r2 by (rule run_appendI)
  moreover have "Manager \<notin> set (evs @ replicate n (Worker j))" using e1 by auto
  moreover have "length (workerPc s2) = length (workerPc s)" using l1 f2 by simp
  moreover have "startSignaled s2 ! i = 0 \<and> workerPc s2 ! i = W_wait" if "i < Suc j" for i
  proof (cases "i = j")
    case True
    then show ?thesis using f2 w ls by simp
  next
    case False
    then have "i < j" using that by simp
    then show ?thesis using d1 f2 False by simp
  qed
  ultimately show ?case using i2 m2 by blast
qed

lemma round_completes:
  assumes ok: "cfg_ok c" and i: "inv c s" and m: "managerPc s = M_barrier"
  shows "\<exists>evs s1 s2. Manager \<notin> set evs \<and> run c evs s = Some s1 \<and>
     managerPc s1 = M_barrier \<and> endSignaled s1 = cfg_count c \<and>
     step c Manager s1 = Some s2 \<and> managerPc s2 = M_copy \<and> endSignaled s2 = 0"
proof -
  from workers_finish [OF ok i m, of "length (workerPc s)"] obtain evs s1 where
    r: "run c evs s = Some s1" and i1: "inv c s1" and m1: "managerPc s1 = M_barrier"
    and e: "Manager \<notin> set evs" and l: "length (workerPc s1) = length (workerPc s)"
    and d: "\<forall>i < length (workerPc s). startSignaled s1 ! i = 0 \<and> workerPc s1 ! i = W_wait"
    by auto
  note C = manager_collect_step [OF ok i1 m1]
  have full: "endSignaled s1 = cfg_count c" using C(2) d l by simp
  define s2 where "s2 = s1\<lparr>endSignaled := 0,
      device := (device s1)[nat (bufferIndex s1) := None], managerPc := M_copy\<rparr>"
  have "step c Manager s1 = Some s2" using C(3) full by (simp add: s2_def)
  moreover have "managerPc s2 = M_copy" "endSignaled s2 = 0" by (simp_all add: s2_def)
  ultimately show ?thesis using e r m1 full by blast
qed

section \<open>The claims about the pipeline\<close>

subsection \<open>FIFO fidelity\<close>

lemma ex_cfg_ok: "cfg_ok ex_cfg"
  unfolding cfg_ok_def
  by (simp add: ex_cfg_def ctor_asserts_def ctor_itemsPerThread_def c_div_def)

text \<open>
  Claim C1: for every number \<open>K\<close> of iterations of the trainer, whatever the interleaving of
  the reader, the manager, the workers and the trainer, the minibatch the trainer reads from
  the device after its \<open>k\<close>-th call of \<^verbatim>\<open>next()\<close> is the single-threaded decode of what the
  \<open>k\<close>-th successful \<^verbatim>\<open>reader.read\<close> delivered; and when the reader delivers \<open>K\<close> minibatches
  there is a run in which the trainer completes its \<open>K\<close> iterations.
\<close>

theorem C1_fifo_fidelity:
  assumes "cfg_ok c" and "\<forall>k < cfg_minibatchCount c. cfg_reader c k \<noteq> None"
  shows "(\<forall>evs s. run c evs (sys_init c) = Some s \<longrightarrow>
            observed s = map (\<lambda>k. Some (single c k)) [0..<length (observed s)] \<and>
            length (observed s) = trainer_i s) \<and>
         (\<exists>evs s. run c evs (sys_init c) = Some s \<and> trainerPc s = T_done \<and>
            observed s = map (\<lambda>k. Some (single c k)) [0..<cfg_minibatchCount c])"
proof (intro conjI allI impI)
  fix evs s assume r: "run c evs (sys_init c) = Some s"
  have "inv c s" using assms(1) r by (rule reachable_inv)
  then have o: "observed s = map (\<lambda>k. Some (single c k)) [0..<trainer_i s]"
    using inv_trainerD(6) [OF invD(7)] by blast
  then show "length (observed s) = trainer_i s" by simp
  then show "observed s = map (\<lambda>k. Some (single c k)) [0..<length (observed s)]"
    using o by simp
next
  from round_robin_rounds [OF assms, of "cfg_minibatchCount c"] obtain s where
    r: "run c (concat (replicate (cfg_minibatchCount c) (round_robin (nat (cfg_count c)))))
      (sys_init c) = Some s" and q: "quiet c (cfg_minibatchCount c) s"
    by auto
  have "trainerPc s = T_done" "trainer_i s = cfg_minibatchCount c" "inv c s"
    using q by (simp_all add: quiet_def)
  moreover from this have "observed s = map (\<lambda>k. Some (single c k)) [0..<cfg_minibatchCount c]"
    using inv_trainerD(6) [OF invD(7)] by metis
  ultimately show "\<exists>evs s. run c evs (sys_init c) = Some s \<and> trainerPc s = T_done \<and>
            observed s = map (\<lambda>k. Some (single c k)) [0..<cfg_minibatchCount c]"
    using r by blast
qed

theorem C1_fifo_fidelity_witness:
  "cfg_ok ex_cfg \<and> cfg_reader ex_cfg 0 \<noteq> None \<and> cfg_reader ex_cfg 1 \<noteq> None \<and>
   single ex_cfg 0 = [100, 101] \<and> single ex_cfg 1 = [110, 111] \<and>
   (\<exists>s. run ex_cfg (round_robin 1 @ round_robin 1) (sys_init ex_cfg) = Some s \<and>
      observed s = [Some (single ex_cfg 0), Some (single ex_cfg 1)])"
proof -
  have rd: "\<forall>k < cfg_minibatchCount ex_cfg. cfg_reader ex_cfg k \<noteq> None"
    by (simp add: ex_cfg_def)
  have "map_option (\<lambda>s. length (observed s))
      (run ex_cfg (round_robin 1 @ round_robin 1) (sys_init ex_cfg)) = Some 2"
    by code_simp
  then obtain s where r: "run ex_cfg (round_robin 1 @ round_robin 1) (sys_init ex_cfg) = Some s"
    and l: "length (observed s) = 2"
    by auto
  from C1_fifo_fidelity [OF ex_cfg_ok rd] r
  have "observed s = map (\<lambda>k. Some (single ex_cfg k)) [0..<length (observed s)]" by blast
  then have "observed s = [Some (single ex_cfg 0), Some (single ex_cfg 1)]"
    unfolding l by (simp add: numeral_2_eq_2 upt_rec)
  moreover have "single ex_cfg 0 = [100, 101]" "single ex_cfg 1 = [110, 111]"
    by (simp_all add: single_def ex_cfg_def)
  moreover have "cfg_reader ex_cfg 0 \<noteq> None" "cfg_reader ex_cfg 1 \<noteq> None"
    by (simp_all add: ex_cfg_def)
  ultimately show ?thesis using ex_cfg_ok r by blast
qed

subsection \<open>Release-then-wait\<close>




subsection \<open>The barrier of a decode round\<close>

text \<open>
  Claim C6, as stated: in every decode round each worker consumes one unit of its start
  signal before decoding, and the manager leaves the barrier only when all \<open>N\<close> workers have
  signalled completion. In the run below \<^verbatim>\<open>stop\<close> is called right after \<^verbatim>\<open>start\<close>, before the
  reader has delivered anything (as \<^verbatim>\<open>reset\<close> does in \<^verbatim>\<open>multi\<close>). Its first loop advances the write
  cursor of the read pool, so the manager starts a round and sets the start signal to 1; the
  worker wakes up, finds \<^verbatim>\<open>_done\<close> set and returns with its signal still at 1; the second loop
  of \<^verbatim>\<open>stop\<close> raises \<^verbatim>\<open>_endSignaled\<close> to \<open>N = 1\<close> itself, and the manager leaves the barrier, resets
  the counter and publishes a minibatch in which no item has been decoded (the device holds
  the initial content of the decode buffer).
\<close>

theorem C6_shutdown_counterexample:
  "map_option (\<lambda>s. (stopPc s, reads s, published s, endSignaled s, startSignaled s, workerPc s,
        workerStopped s, managerStopped s, device s))
     (run_stop ex_cfg
        [Stop, Stop, Pipeline Manager, Pipeline Manager, Pipeline (Worker 0), Stop, Stop,
         Pipeline Manager, Pipeline Manager, Pipeline Manager, Pipeline Manager, Stop]
        (sys_init ex_cfg))
   = Some (S_done, 0, 1, 0, [1], [W_wait], [True], True, [Some [0, 0], None])"
  by code_simp

text \<open>
  Claim C6, amended: in every state that is reached before \<^verbatim>\<open>DecodeThreadPool::stop\<close> is called,
  the two assertions of \<^verbatim>\<open>work\<close> have held, every start signal is 0 or 1 and the completion
  counter lies between 0 and \<open>N\<close>; a worker is past its wait only during a round and only
  after it has taken its start signal back to 0; outside a round every signal is 0, every
  worker waits and the counter is 0; during a round the counter is the number of workers that
  have completed, and it is \<open>N\<close> exactly when all have. The steps of a round do this: the
  manager, once a decode slot is free, sets every start signal (all 0) to 1; a waiting worker
  is blocked while its signal is 0 and with its signal at 1 takes it to 0 and enters the item
  loop; a worker in the item loop finishes it, touching neither signal nor counter; a worker
  that reports completion raises the counter by one, to at most \<open>N\<close>; the manager at the barrier
  is blocked while the counter is below \<open>N\<close> and at \<open>N\<close> resets it to 0 and goes on to the copy.
  And every round can be completed: from any state inside a round the workers alone reach
  a state with the counter at \<open>N\<close>, from which the manager leaves the barrier.
\<close>

theorem C6_barrier_round_trip:
  assumes "cfg_ok c" and "run_stop c evs (sys_init c) = Some s" and "stopPc s = S_idle"
  shows "\<not> assert_failed s \<and>
    int (length (startSignaled s)) = cfg_count c \<and> int (length (workerPc s)) = cfg_count c \<and>
    0 \<le> endSignaled s \<and> endSignaled s \<le> cfg_count c \<and>
    (\<forall>i < length (workerPc s).
       (startSignaled s ! i = 0 \<or> startSignaled s ! i = 1) \<and>
       (workerPc s ! i \<noteq> W_wait \<longrightarrow> startSignaled s ! i = 0 \<and> managerPc s = M_barrier)) \<and>
    (managerPc s \<noteq> M_barrier \<longrightarrow>
       endSignaled s = 0 \<and>
       (\<forall>i < length (workerPc s). startSignaled s ! i = 0 \<and> workerPc s ! i = W_wait)) \<and>
    (managerPc s = M_barrier \<longrightarrow>
       endSignaled s = done_count (startSignaled s) (workerPc s) \<and>
       (endSignaled s = cfg_count c \<longleftrightarrow>
          (\<forall>i < length (workerPc s). startSignaled s ! i = 0 \<and> workerPc s ! i = W_wait))) \<and>
    (managerPc s = M_in \<longrightarrow>
       step_stop c (Pipeline Manager) s =
         (if pool_full (decodeBufs s) then None
          else Some (s\<lparr>startSignaled := replicate (nat (cfg_count c)) 1,
                       managerPc := M_barrier\<rparr>))) \<and>
    (\<forall>wid < length (workerPc s).
       (workerPc s ! wid = W_wait \<longrightarrow>
          step_stop c (Pipeline (Worker wid)) s =
            (if startSignaled s ! wid = 1
             then Some (s\<lparr>startSignaled := (startSignaled s)[wid := 0],
                          workerPc := (workerPc s)[wid := W_decode]\<rparr>)
             else None)) \<and>
       (workerPc s ! wid = W_decode \<longrightarrow>
          (\<exists>dst. step_stop c (Pipeline (Worker wid)) s =
             Some (s\<lparr>decodeBufs := putForWrite dst (decodeBufs s),
                     workerPc := (workerPc s)[wid := W_signal]\<rparr>))) \<and>
       (workerPc s ! wid = W_signal \<longrightarrow>
          endSignaled s < cfg_count c \<and>
          step_stop c (Pipeline (Worker wid)) s =
            Some (s\<lparr>endSignaled := endSignaled s + 1,
                    workerPc := (workerPc s)[wid := W_wait]\<rparr>))) \<and>
    (managerPc s = M_barrier \<longrightarrow>
       step_stop c (Pipeline Manager) s =
         (if endSignaled s = cfg_count c
          then Some (s\<lparr>endSignaled := 0, device := (device s)[nat (bufferIndex s) := None],
                       managerPc := M_copy\<rparr>)
          else None)) \<and>
    (managerPc s = M_barrier \<longrightarrow>
       (\<exists>ws s1 s2. Manager \<notin> set ws \<and> run_stop c (map Pipeline ws) s = Some s1 \<and>
          managerPc s1 = M_barrier \<and> endSignaled s1 = cfg_count c \<and>
          step_stop c (Pipeline Manager) s1 = Some s2 \<and>
          managerPc s2 = M_copy \<and> endSignaled s2 = 0))"
proof -
  note ok = assms(1)
  from run_stop_idle [OF assms(2,3)] obtain evs' where "run c evs' (sys_init c) = Some s"
    by blast
  with ok have i: "inv c s" by (rule reachable_inv)
  note I = invD [OF i]
  note B = inv_barrierD [OF I(4)]
  have len: "length (startSignaled s) = length (workerPc s)" using B(1,2) by simp
  have dle: "done_count (startSignaled s) (workerPc s) \<le> int (length (workerPc s))"
    using len by (rule done_count_le)
  have d0: "0 \<le> done_count (startSignaled s) (workerPc s)" by (simp add: done_count_def)
  have e: "0 \<le> endSignaled s" "endSignaled s \<le> cfg_count c"
  proof -
    show "0 \<le> endSignaled s"
      using B(4) B(6) d0 by (cases "managerPc s = M_barrier") simp_all
    show "endSignaled s \<le> cfg_count c"
      using B(4) B(6) dle B(2) cfg_okD(2) [OF ok] by (cases "managerPc s = M_barrier") simp_all
  qed
  have w: "\<forall>i < length (workerPc s).
       (startSignaled s ! i = 0 \<or> startSignaled s ! i = 1) \<and>
       (workerPc s ! i \<noteq> W_wait \<longrightarrow> startSignaled s ! i = 0 \<and> managerPc s = M_barrier)"
  proof (intro allI impI)
    fix i assume il: "i < length (workerPc s)"
    show "(startSignaled s ! i = 0 \<or> startSignaled s ! i = 1) \<and>
       (workerPc s ! i \<noteq> W_wait \<longrightarrow> startSignaled s ! i = 0 \<and> managerPc s = M_barrier)"
    proof (cases "managerPc s = M_barrier")
      case True
      then show ?thesis using B(7) [OF True il] by auto
    next
      case False
      then show ?thesis using B(5) [OF False il] by simp
    qed
  qed
  have idle: "managerPc s \<noteq> M_barrier \<longrightarrow>
       endSignaled s = 0 \<and>
       (\<forall>i < length (workerPc s). startSignaled s ! i = 0 \<and> workerPc s ! i = W_wait)"
    using B(4) B(5) by simp
  have bar: "managerPc s = M_barrier \<longrightarrow>
       endSignaled s = done_count (startSignaled s) (workerPc s) \<and>
       (endSignaled s = cfg_count c \<longleftrightarrow>
          (\<forall>i < length (workerPc s). startSignaled s ! i = 0 \<and> workerPc s ! i = W_wait))"
    using B(6) manager_collect_step(2) [OF ok i] by simp
  have sig: "managerPc s = M_in \<longrightarrow>
       step_stop c (Pipeline Manager) s =
         (if pool_full (decodeBufs s) then None
          else Some (s\<lparr>startSignaled := replicate (nat (cfg_count c)) 1,
                       managerPc := M_barrier\<rparr>))"
    using manager_signal_step [OF ok i] by (simp add: step_stop_def)
  have wk: "\<forall>wid < length (workerPc s).
       (workerPc s ! wid = W_wait \<longrightarrow>
          step_stop c (Pipeline (Worker wid)) s =
            (if startSignaled s ! wid = 1
             then Some (s\<lparr>startSignaled := (startSignaled s)[wid := 0],
                          workerPc := (workerPc s)[wid := W_decode]\<rparr>)
             else None)) \<and>
       (workerPc s ! wid = W_decode \<longrightarrow>
          (\<exists>dst. step_stop c (Pipeline (Worker wid)) s =
             Some (s\<lparr>decodeBufs := putForWrite dst (decodeBufs s),
                     workerPc := (workerPc s)[wid := W_signal]\<rparr>))) \<and>
       (workerPc s ! wid = W_signal \<longrightarrow>
          endSignaled s < cfg_count c \<and>
          step_stop c (Pipeline (Worker wid)) s =
            Some (s\<lparr>endSignaled := endSignaled s + 1,
                    workerPc := (workerPc s)[wid := W_wait]\<rparr>))"
  proof (intro allI impI conjI)
    fix wid assume wl: "wid < length (workerPc s)"
    {
      assume "workerPc s ! wid = W_wait"
      from worker_start_step [OF ok i wl this]
      show "step_stop c (Pipeline (Worker wid)) s =
            (if startSignaled s ! wid = 1
             then Some (s\<lparr>startSignaled := (startSignaled s)[wid := 0],
                          workerPc := (workerPc s)[wid := W_decode]\<rparr>)
             else None)"
        by (simp add: step_stop_def)
    next
      assume "workerPc s ! wid = W_decode"
      from worker_decode_step [OF ok i wl this]
      show "\<exists>dst. step_stop c (Pipeline (Worker wid)) s =
             Some (s\<lparr>decodeBufs := putForWrite dst (decodeBufs s),
                     workerPc := (workerPc s)[wid := W_signal]\<rparr>)"
        by (simp add: step_stop_def)
    next
      assume pc: "workerPc s ! wid = W_signal"
      from worker_end_step [OF ok i wl pc]
      show "endSignaled s < cfg_count c" by simp
      from worker_end_step [OF ok i wl pc]
      show "step_stop c (Pipeline (Worker wid)) s =
            Some (s\<lparr>endSignaled := endSignaled s + 1,
                    workerPc := (workerPc s)[wid := W_wait]\<rparr>)"
        by (simp add: step_stop_def)
    }
  qed
  have col: "managerPc s = M_barrier \<longrightarrow>
       step_stop c (Pipeline Manager) s =
         (if endSignaled s = cfg_count c
          then Some (s\<lparr>endSignaled := 0, device := (device s)[nat (bufferIndex s) := None],
                       managerPc := M_copy\<rparr>)
          else None)"
    using manager_collect_step(3) [OF ok i] by (simp add: step_stop_def)
  have fin: "managerPc s = M_barrier \<longrightarrow>
       (\<exists>ws s1 s2. Manager \<notin> set ws \<and> run_stop c (map Pipeline ws) s = Some s1 \<and>
          managerPc s1 = M_barrier \<and> endSignaled s1 = cfg_count c \<and>
          step_stop c (Pipeline Manager) s1 = Some s2 \<and>
          managerPc s2 = M_copy \<and> endSignaled s2 = 0)"
  proof
    assume "managerPc s = M_barrier"
    from round_completes [OF ok i this] show
      "\<exists>ws s1 s2. Manager \<notin> set ws \<and> run_stop c (map Pipeline ws) s = Some s1 \<and>
          managerPc s1 = M_barrier \<and> endSignaled s1 = cfg_count c \<and>
          step_stop c (Pipeline Manager) s1 = Some s2 \<and>
          managerPc s2 = M_copy \<and> endSignaled s2 = 0"
      unfolding run_stop_Pipeline by (simp add: step_stop_def)
  qed
  show ?thesis
    by (intro conjI) (rule B(3) B(1) B(2) e w idle bar sig wk col fin)+
qed

theorem C6_barrier_round_trip_witness:
  "cfg_ok ex_cfg \<and>
   (\<exists>s. run_stop ex_cfg
          [Pipeline Reader, Pipeline Manager, Pipeline Manager,
           Pipeline (Worker 0), Pipeline (Worker 0), Pipeline (Worker 0)]
          (sys_init ex_cfg) = Some s \<and>
      stopPc s = S_idle \<and> managerPc s = M_barrier \<and> workerPc s = [W_wait] \<and>
      startSignaled s = [0] \<and> endSignaled s = 1 \<and> \<not> assert_failed s \<and>
      step_stop ex_cfg (Pipeline Manager) s =
        Some (s\<lparr>endSignaled := 0, device := (device s)[nat (bufferIndex s) := None],
                managerPc := M_copy\<rparr>))"
proof -
  have "map_option (\<lambda>s. (stopPc s, managerPc s, workerPc s, startSignaled s, endSignaled s))
     (run_stop ex_cfg
          [Pipeline Reader, Pipeline Manager, Pipeline Manager,
           Pipeline (Worker 0), Pipeline (Worker 0), Pipeline (Worker 0)]
          (sys_init ex_cfg))
     = Some (S_idle, M_barrier, [W_wait], [0], 1)"
    by code_simp
  then obtain s where
    r: "run_stop ex_cfg
          [Pipeline Reader, Pipeline Manager, Pipeline Manager,
           Pipeline (Worker 0), Pipeline (Worker 0), Pipeline (Worker 0)]
          (sys_init ex_cfg) = Some s"
    and t: "stopPc s = S_idle" "managerPc s = M_barrier" "workerPc s = [W_wait]"
      "startSignaled s = [0]" "endSignaled s = 1"
    by auto
  have n: "cfg_count ex_cfg = 1" by (simp add: ex_cfg_def)
  note th = C6_barrier_round_trip [OF ex_cfg_ok r t(1)]
  have na: "\<not> assert_failed s" using th by blast
  have "step_stop ex_cfg (Pipeline Manager) s =
         (if endSignaled s = cfg_count ex_cfg
          then Some (s\<lparr>endSignaled := 0, device := (device s)[nat (bufferIndex s) := None],
                       managerPc := M_copy\<rparr>)
          else None)"
    using th t(2) by blast
  then have "step_stop ex_cfg (Pipeline Manager) s =
        Some (s\<lparr>endSignaled := 0, device := (device s)[nat (bufferIndex s) := None],
                managerPc := M_copy\<rparr>)"
    using t(5) n by simp
  then show ?thesis using ex_cfg_ok r t na by blast
qed

subsection \<open>The two device slots\<close>

text \<open>
  Claim C7: in every reachable state \<^verbatim>\<open>_bufferIndex\<close> is 0 or 1 and equals the number of
  minibatches produced so far mod 2; \<^verbatim>\<open>produce\<close> copies minibatch \<open>k\<close> (counting from 0) to slot
  \<open>k mod 2\<close> and flips the index; the device holds the last two minibatches produced; and while
  the manager copies to the device and the trainer reads the slot of its current minibatch,
  the two slots differ and the trainer's slot is intact.
\<close>

theorem C7_double_buffer:
  assumes "cfg_ok c" and "run c evs (sys_init c) = Some s"
  shows "(bufferIndex s = 0 \<or> bufferIndex s = 1) \<and>
    bufferIndex s = int (published s mod 2) \<and>
    (\<forall>s'. produce_publish c s = Some s' \<longrightarrow>
       published s' = published s + 1 \<and> bufferIndex s' = 1 - bufferIndex s \<and>
       device s' = (device s)[published s mod 2 := Some (single c (published s))]) \<and>
    (\<forall>k. k < published s \<and> published s \<le> k + (if managerPc s = M_copy then 1 else 2) \<longrightarrow>
       device s ! (k mod 2) = Some (single c k)) \<and>
    (managerPc s = M_copy \<and> trainerPc s = T_read \<longrightarrow>
       nat (bufferIndex s) \<noteq> trainer_i s mod 2 \<and>
       device s ! (trainer_i s mod 2) = Some (single c (trainer_i s)))"
proof -
  have i: "inv c s" using assms by (rule reachable_inv)
  note I = invD [OF i]
  note Pout = pool_invD [OF inv_poolsD(2) [OF I(1)]]
  note M = inv_managerD [OF I(2)]
  note T = inv_trainerD [OF I(7)]
  have a: "bufferIndex s = 0 \<or> bufferIndex s = 1"
  proof -
    have "published s mod 2 = 0 \<or> published s mod 2 = 1" by arith
    then show ?thesis unfolding M(1) by auto
  qed
  have b: "published s' = published s + 1 \<and> bufferIndex s' = 1 - bufferIndex s \<and>
       device s' = (device s)[published s mod 2 := Some (single c (published s))]"
    if h: "produce_publish c s = Some s'" for s'
  proof -
    note g = produce_publish_SomeD(1) [OF h]
    note s' = produce_publish_SomeD(2) [OF h]
    have "getForWrite (decodeBufs s) = map (cfg_xform c 0) (the (cfg_reader c (consumed s)))"
      using I(5) g by (simp add: inv_decoded_def)
    moreover have "consumed s = published s" using g by (simp add: consumed_def)
    ultimately have "cfg_transpose c (getForWrite (decodeBufs s)) = single c (published s)"
      by (simp add: single_def)
    moreover have "nat (bufferIndex s) = published s mod 2" using M(1) by simp
    moreover have "(if bufferIndex s = 0 then 1 else 0) = 1 - bufferIndex s" using a by auto
    ultimately show ?thesis by (simp add: s')
  qed
  have d: "device s ! (k mod 2) = Some (single c k)"
    if "k < published s \<and> published s \<le> k + (if managerPc s = M_copy then 1 else 2)" for k
    using I(6) that by (intro inv_deviceD) simp_all
  have e: "nat (bufferIndex s) \<noteq> trainer_i s mod 2 \<and>
       device s ! (trainer_i s mod 2) = Some (single c (trainer_i s))"
    if h: "managerPc s = M_copy \<and> trainerPc s = T_read"
  proof -
    have lt: "trainer_i s < published s" using T(2) h by simp
    have r: "released s = trainer_i s" using h by (simp add: released_def)
    have "bp_used (decodeBufs s) < int (cfg_decodeSlots c)" using M(6) h by simp
    then have up: "published s \<le> trainer_i s + 1"
      using Pout(6) r cfg_okD(6) [OF assms(1)] by simp
    have "trainer_i s mod 2 \<noteq> published s mod 2"
      using lt up by (intro mod_distinct) simp_all
    moreover have "nat (bufferIndex s) = published s mod 2" using M(1) by simp
    moreover have "device s ! (trainer_i s mod 2) = Some (single c (trainer_i s))"
      using lt up h by (intro d) simp
    ultimately show ?thesis by simp
  qed
  show ?thesis using a M(1) b d e by blast
qed

theorem C7_double_buffer_witness:
  "cfg_ok ex_cfg \<and>
   (\<exists>s. run ex_cfg [Reader, Manager, Manager, Worker 0, Worker 0, Worker 0, Manager, Manager,
            Manager, Trainer, Reader, Manager, Manager, Worker 0, Worker 0, Worker 0, Manager]
          (sys_init ex_cfg) = Some s \<and>
      managerPc s = M_copy \<and> trainerPc s = T_read \<and> trainer_i s = 0 \<and> bufferIndex s = 1 \<and>
      device s ! 0 = Some (single ex_cfg 0))"
proof -
  have "map_option (\<lambda>s. (managerPc s, trainerPc s, trainer_i s))
     (run ex_cfg [Reader, Manager, Manager, Worker 0, Worker 0, Worker 0, Manager, Manager,
            Manager, Trainer, Reader, Manager, Manager, Worker 0, Worker 0, Worker 0, Manager]
          (sys_init ex_cfg)) = Some (M_copy, T_read, 0)"
    by code_simp
  then obtain s where
    r: "run ex_cfg [Reader, Manager, Manager, Worker 0, Worker 0, Worker 0, Manager, Manager,
            Manager, Trainer, Reader, Manager, Manager, Worker 0, Worker 0, Worker 0, Manager]
          (sys_init ex_cfg) = Some s"
    and t: "managerPc s = M_copy" "trainerPc s = T_read" "trainer_i s = 0"
    by auto
  note th = C7_double_buffer [OF ex_cfg_ok r]
  have n: "nat (bufferIndex s) \<noteq> trainer_i s mod 2"
    and d: "device s ! (trainer_i s mod 2) = Some (single ex_cfg (trainer_i s))"
    using th t by blast+
  have "bufferIndex s = 0 \<or> bufferIndex s = 1" using th by blast
  then have "bufferIndex s = 1" using n t(3) by auto
  then show ?thesis using ex_cfg_ok r t d by auto
qed

subsection \<open>Failure of the reader\<close>

lemma manage_reader_view:
  assumes "manage c s = Some s'"
  shows "reader_view s' = reader_view s"
proof -
  have ns: "\<not> managerStopped s"
    using assms unfolding manage_def by (meson option.distinct(1))
  note st = assms [unfolded manage_normal [OF ns]]
  show ?thesis
  proof (cases "managerPc s")
    case M_idle
    then have cb: "consume_begin s = Some s'" using st by simp
    show ?thesis
    proof (cases "stopManager s")
      case True
      then have "s' = s\<lparr>managerStopped := True\<rparr>"
        using cb M_idle by (simp add: consume_begin_def)
      then show ?thesis by (simp add: reader_view_def)
    next
      case False
      from consume_begin_SomeD(3) [OF cb False] show ?thesis by (simp add: reader_view_def)
    qed
  next
    case M_in
    then have "produce_signal s = Some s'" using st by simp
    from produce_signal_SomeD(3) [OF this] show ?thesis by (simp add: reader_view_def)
  next
    case M_barrier
    then have "produce_collect c s = Some s'" using st by simp
    from produce_collect_SomeD(3) [OF this] show ?thesis by (simp add: reader_view_def)
  next
    case M_copy
    then have "produce_publish c s = Some s'" using st by simp
    from produce_publish_SomeD(2) [OF this] show ?thesis by (simp add: reader_view_def)
  next
    case M_release
    then have "consume_end s = Some s'" using st by simp
    from consume_end_SomeD(2) [OF this] show ?thesis by (simp add: reader_view_def)
  qed
qed

lemma work_reader_view:
  assumes "work c wid s = Some s'"
  shows "reader_view s' = reader_view s"
proof (cases "workerPc s ! wid")
  case W_wait
  have ws: "work_start wid s = Some s'" using work_SomeD(3) [OF assms W_wait] .
  show ?thesis
  proof (cases "pool_done s")
    case True
    then have "s' = s\<lparr>workerStopped := (workerStopped s)[wid := True]\<rparr>"
      using ws by (simp add: work_start_def)
    then show ?thesis by (simp add: reader_view_def)
  next
    case False
    from work_start_SomeD(2) [OF ws False] show ?thesis by (simp add: reader_view_def)
  qed
next
  case W_decode
  from work_items_step_SomeD [OF work_SomeD(4) [OF assms W_decode]]
  show ?thesis by (auto simp: reader_view_def)
next
  case W_signal
  have "work_end c wid s = Some s'" using work_SomeD(5) [OF assms W_signal] .
  then have "s' = s\<lparr>endSignaled := endSignaled s + 1,
             workerPc := (workerPc s)[wid := W_wait],
             assert_failed := (assert_failed s \<or> \<not> endSignaled s + 1 \<le> cfg_count c)\<rparr>"
    by (simp add: work_end_def)
  then show ?thesis by (simp add: reader_view_def)
qed

lemma multi_reader_view:
  assumes "multi c s = Some s'"
  shows "reader_view s' = reader_view s"
proof (cases "trainerPc s")
  case T_next
  then have n: "next_call s = Some s'" using assms by (simp add: multi_def)
  show ?thesis using next_call_SomeD(3,4) [OF n] by (cases "first s") (simp_all add: reader_view_def)
next
  case T_wait
  then have "next_wake s = Some s'" using assms by (simp add: multi_def)
  from next_wake_SomeD(4) [OF this] show ?thesis by (simp add: reader_view_def)
next
  case T_read
  then have "s' = s\<lparr>observed := observed s @ [device s ! (trainer_i s mod 2)],
             trainer_i := trainer_i s + 1,
             trainerPc := (if trainer_i s + 1 < cfg_minibatchCount c then T_next else T_done)\<rparr>"
    using assms by (simp add: multi_def multi_read_def)
  then show ?thesis by (simp add: reader_view_def)
next
  case T_done
  then show ?thesis using assms by (simp add: multi_def)
qed

lemma step_after_failure:
  assumes "step c ev s = Some s'" "rt_done s"
  shows "ev \<noteq> Reader \<and> reader_view s' = reader_view s"
proof (cases ev)
  case Reader
  then have "ReadThread_produce c s = Some s'" using assms(1) by (simp add: step_def split: if_splits)
  then show ?thesis using ReadThread_produce_SomeD(3) assms(2) by blast
next
  case Manager
  then have "manage c s = Some s'" using assms(1) by (simp add: step_def split: if_splits)
  then show ?thesis using Manager manage_reader_view by blast
next
  case (Worker wid)
  then have "work c wid s = Some s'" using assms(1) by (simp add: step_def split: if_splits)
  then show ?thesis using Worker work_reader_view by blast
next
  case Trainer
  then have "multi c s = Some s'" using assms(1) by (simp add: step_def split: if_splits)
  then show ?thesis using Trainer multi_reader_view by blast
qed

lemma run_after_failure:
  "rt_done s \<Longrightarrow> run c evs s = Some s' \<Longrightarrow> Reader \<notin> set evs \<and> reader_view s' = reader_view s"
proof (induction evs arbitrary: s)
  case Nil
  then show ?case by simp
next
  case (Cons ev evs)
  then obtain s1 where s1: "step c ev s = Some s1" "run c evs s1 = Some s'"
    by (auto split: option.splits)
  have a: "ev \<noteq> Reader \<and> reader_view s1 = reader_view s"
    using s1(1) Cons.prems(1) by (rule step_after_failure)
  then have "rt_done s1" using Cons.prems(1) by (simp add: reader_view_def)
  from Cons.IH [OF this s1(2)] show ?case using a by auto
qed

text \<open>
  Claim C8: when \<^verbatim>\<open>reader.read\<close> returns -1, the step of the read thread sets \<^verbatim>\<open>_done\<close> and
  raises the fatal condition and changes nothing else, so the write cursor and the count of
  the read pool stay as they are; and in no continuation does the read thread take another step:
  no read is attempted and the read pool's write cursor and buffers are never written again.
\<close>

theorem C8_reader_failure:
  assumes "cfg_reader c (reads s) = None"
    and "\<not> assert_failed s" and "\<not> rt_done s" and "\<not> fatal s"
    and "managerPc s = M_idle" and "\<not> pool_full (readBufs s)"
  shows "step c Reader s = Some (s\<lparr>rt_done := True, fatal := True\<rparr>) \<and>
    (\<forall>evs s'. run c evs (s\<lparr>rt_done := True, fatal := True\<rparr>) = Some s' \<longrightarrow>
       Reader \<notin> set evs \<and> rt_done s' \<and> fatal s' \<and> reads s' = reads s \<and>
       bp_writePos (readBufs s') = bp_writePos (readBufs s) \<and>
       bp_bufs (readBufs s') = bp_bufs (readBufs s))"
proof (intro conjI allI impI)
  show "step c Reader s = Some (s\<lparr>rt_done := True, fatal := True\<rparr>)"
    using assms by (simp add: step_def ReadThread_produce_def)
next
  fix evs s' assume r: "run c evs (s\<lparr>rt_done := True, fatal := True\<rparr>) = Some s'"
  have "rt_done (s\<lparr>rt_done := True, fatal := True\<rparr>)" by simp
  from run_after_failure [OF this r]
  have a: "Reader \<notin> set evs"
    and v: "reader_view s' = reader_view (s\<lparr>rt_done := True, fatal := True\<rparr>)"
    by simp_all
  show "Reader \<notin> set evs" by fact
  show "rt_done s'" "fatal s'" "reads s' = reads s"
    "bp_writePos (readBufs s') = bp_writePos (readBufs s)"
    "bp_bufs (readBufs s') = bp_bufs (readBufs s)"
    using v by (simp_all add: reader_view_def)
qed

theorem C8_reader_failure_witness:
  "(\<exists>s. run ex_cfg_fail [Reader] (sys_init ex_cfg_fail) = Some s \<and>
      cfg_reader ex_cfg_fail (reads s) = None \<and>
      \<not> assert_failed s \<and> \<not> rt_done s \<and> \<not> fatal s \<and> managerPc s = M_idle \<and>
      \<not> pool_full (readBufs s) \<and>
      step ex_cfg_fail Reader s = Some (s\<lparr>rt_done := True, fatal := True\<rparr>) \<and>
      run ex_cfg_fail [Reader, Reader] s = None)"
proof -
  define s where "s = the (run ex_cfg_fail [Reader] (sys_init ex_cfg_fail))"
  have "map_option (\<lambda>s. (reads s, assert_failed s, rt_done s, fatal s, managerPc s,
        bp_used (readBufs s), length (bp_bufs (readBufs s))))
      (run ex_cfg_fail [Reader] (sys_init ex_cfg_fail))
      = Some (1, False, False, False, M_idle, 1, 2)"
    by code_simp
  then have r: "run ex_cfg_fail [Reader] (sys_init ex_cfg_fail) = Some s"
    and f: "reads s = 1" "\<not> assert_failed s" "\<not> rt_done s" "\<not> fatal s" "managerPc s = M_idle"
      "bp_used (readBufs s) = 1" "length (bp_bufs (readBufs s)) = 2"
    unfolding s_def by auto
  have a: "cfg_reader ex_cfg_fail (reads s) = None" using f(1) by (simp add: ex_cfg_fail_def)
  have b: "\<not> pool_full (readBufs s)" using f(6,7) by (simp add: pool_full_def)
  note th = C8_reader_failure [OF a f(2,3,4,5) b]
  have st: "step ex_cfg_fail Reader s = Some (s\<lparr>rt_done := True, fatal := True\<rparr>)"
    using th by blast
  have "run ex_cfg_fail [Reader, Reader] s = None"
  proof (cases "run ex_cfg_fail [Reader] (s\<lparr>rt_done := True, fatal := True\<rparr>)")
    case None
    then show ?thesis using st by simp
  next
    case (Some s')
    then have "Reader \<notin> set [Reader]" using th by blast
    then show ?thesis by simp
  qed
  then show ?thesis using r a f b st by blast
qed

section \<open>The facade: allocation failure and reset\<close>

lemma start_guards:
  assumes "1 \<le> ld_batchSize l" "1 \<le> env_numCores e"
  shows "env_numCores e \<noteq> 0"
    and "c_div (ld_batchSize l - 1) (env_numCores e) + 1 \<noteq> 0"
    and "start_threadCount (ld_batchSize l) (env_numCores e) \<noteq> 0"
    and "ctor_asserts (ld_batchSize l) (start_threadCount (ld_batchSize l) (env_numCores e))"
proof -
  show "env_numCores e \<noteq> 0" using assms(2) by simp
  have "0 \<le> (ld_batchSize l - 1) div env_numCores e"
    using assms by (simp add: pos_imp_zdiv_nonneg_iff)
  then show "c_div (ld_batchSize l - 1) (env_numCores e) + 1 \<noteq> 0"
    using assms by (simp add: c_div_nonneg)
  show "start_threadCount (ld_batchSize l) (env_numCores e) \<noteq> 0"
    using start_threadCount_props(1) [OF assms] by simp
  show "ctor_asserts (ld_batchSize l) (start_threadCount (ld_batchSize l) (env_numCores e))"
    using assms by (rule start_threadCount_asserts)
qed

text \<open>What \<^verbatim>\<open>start\<close> returns when an allocation of its \<^verbatim>\<open>try\<close> block fails.\<close>

lemma start_failure:
  assumes "1 \<le> ld_batchSize l" "1 \<le> env_numCores e" "\<not> try_allocs_ok e"
  shows "start e l = Inr (- 1,
    l\<lparr>ld_first := True,
      ld_readBufs :=
        (if env_alloc e 0
         then Some (c_div (ld_batchSize l * ld_datumSize l * ld_datumTypeSize l) 8,
                    ld_batchSize l * ld_targetSize l * ld_targetTypeSize l,
                    2 * ld_batchSize l, False)
         else ld_readBufs l),
      ld_readThread :=
        (if env_alloc e 0 \<and> env_alloc e 1 then Some False else ld_readThread l),
      ld_decodeBufs :=
        (if env_alloc e 0 \<and> env_alloc e 1 \<and> env_alloc e 2
         then Some (ld_batchSize l * ld_datumSize l * ld_datumTypeSize l,
                    ld_batchSize l * ld_targetSize l * ld_targetTypeSize l,
                    2 * ld_batchSize l, \<not> ld_device_is_CPU l)
         else ld_decodeBufs l)\<rparr>)"
proof -
  note g = start_guards [OF assms(1,2)]
  show ?thesis
  proof (cases "env_alloc e 0")
    case False
    then show ?thesis by (simp add: start_def Let_def)
  next
    case a0: True
    show ?thesis
    proof (cases "env_alloc e 1")
      case False
      then show ?thesis using a0 by (simp add: start_def Let_def)
    next
      case a1: True
      show ?thesis
      proof (cases "env_alloc e 2")
        case False
        then show ?thesis using a0 a1 by (simp add: start_def Let_def)
      next
        case a2: True
        have "\<not> env_alloc e 3 \<or> \<not> env_alloc e 4"
          using assms(3) a0 a1 a2 by (simp add: try_allocs_ok_def)
        then show ?thesis using a0 a1 a2 g by (auto simp add: start_def Let_def)
      qed
    qed
  qed
qed

subsection \<open>Allocation failure during start\<close>

text \<open>
  Claim C9, as stated: if an allocation fails during \<^verbatim>\<open>Loader::start\<close>, \<^verbatim>\<open>start\<close> returns -1 and
  no partially constructed pools or stages are left installed in the facade. On a loader
  fresh from its constructor, let the allocation of the buffers of the decode pool fail:
  \<^verbatim>\<open>start\<close> returns -1, and \<^verbatim>\<open>_readBufs\<close> and \<^verbatim>\<open>_readThread\<close> stay installed. And let instead
  the allocation of a thread object in \<^verbatim>\<open>DecodeThreadPool::start\<close> fail, which \<^verbatim>\<open>start\<close> calls
  after its \<^verbatim>\<open>try\<close> block: the exception leaves \<^verbatim>\<open>start\<close>, which returns nothing.
\<close>

theorem C9_partial_state_counterexample:
  "spec_no_partial_state ex_loader \<and>
   start ex_env_fail ex_loader = Inr (- 1, ex_partial) \<and>
   \<not> spec_no_partial_state ex_partial \<and>
   ld_readBufs ex_partial = Some (49152, 512, 256, False) \<and>
   ld_readThread ex_partial = Some False \<and>
   \<not> env_alloc ex_env_spawn_fail 5 \<and>
   start ex_env_spawn_fail ex_loader = Inl Uncaught_bad_alloc"
  by (simp add: spec_no_partial_state_def ex_loader_def ex_env_fail_def ex_partial_def
      ex_env_spawn_fail_def start_def Let_def c_div_def start_threadCount_def
      ctor_asserts_def ctor_itemsPerThread_def)

text \<open>
  Claim C9, amended: if an allocation inside the \<^verbatim>\<open>try\<close> block of \<^verbatim>\<open>Loader::start\<close> fails (batch
  size and \<^verbatim>\<open>hardware_concurrency()\<close> at least 1), \<^verbatim>\<open>start\<close> returns -1 with the pipeline not
  started: \<^verbatim>\<open>_first\<close> is set, the call spawns no thread (the decode pool handle is the one
  before the call, and a read thread object the call has constructed is not started), and
  the objects constructed before the failing allocation stay installed: \<^verbatim>\<open>_readBufs\<close> when the
  first allocation succeeded, \<^verbatim>\<open>_readThread\<close> when the first two did, \<^verbatim>\<open>_decodeBufs\<close> when the
  first three did; every other handle is what it was before the call. So the facade holds no
  pool and no stage afterwards exactly when it held none before and the first allocation is
  the one that failed.
\<close>

theorem C9_start_allocation_failure:
  assumes "1 \<le> ld_batchSize l" "1 \<le> env_numCores e" "\<not> try_allocs_ok e"
  shows "\<exists>l'. start e l = Inr (- 1, l') \<and> ld_first l' \<and>
    ld_decodeThreads l' = ld_decodeThreads l \<and>
    (decode_threads_spawned l' \<longleftrightarrow> decode_threads_spawned l) \<and>
    (read_thread_spawned l' \<longrightarrow> read_thread_spawned l) \<and>
    (env_alloc e 0 \<longrightarrow> ld_readBufs l' \<noteq> None) \<and>
    (\<not> env_alloc e 0 \<longrightarrow> ld_readBufs l' = ld_readBufs l) \<and>
    (env_alloc e 0 \<and> env_alloc e 1 \<longrightarrow> ld_readThread l' = Some False) \<and>
    (\<not> (env_alloc e 0 \<and> env_alloc e 1) \<longrightarrow> ld_readThread l' = ld_readThread l) \<and>
    (env_alloc e 0 \<and> env_alloc e 1 \<and> env_alloc e 2 \<longrightarrow> ld_decodeBufs l' \<noteq> None) \<and>
    (\<not> (env_alloc e 0 \<and> env_alloc e 1 \<and> env_alloc e 2) \<longrightarrow>
       ld_decodeBufs l' = ld_decodeBufs l) \<and>
    (spec_no_partial_state l' \<longleftrightarrow> spec_no_partial_state l \<and> \<not> env_alloc e 0)"
  unfolding start_failure [OF assms]
  by (auto simp add: decode_threads_spawned_def read_thread_spawned_def
      spec_no_partial_state_def)

theorem C9_start_allocation_failure_witness:
  "1 \<le> ld_batchSize ex_loader \<and> 1 \<le> env_numCores ex_env_fail \<and>
   \<not> try_allocs_ok ex_env_fail \<and>
   (\<exists>l'. start ex_env_fail ex_loader = Inr (- 1, l') \<and> ld_first l' \<and>
      \<not> decode_threads_spawned l' \<and> \<not> read_thread_spawned l' \<and>
      ld_readBufs l' \<noteq> None \<and> ld_readThread l' = Some False \<and>
      ld_decodeBufs l' = None \<and> ld_decodeThreads l' = None \<and>
      \<not> spec_no_partial_state l')"
proof -
  have h: "1 \<le> ld_batchSize ex_loader" "1 \<le> env_numCores ex_env_fail"
    "\<not> try_allocs_ok ex_env_fail"
    by (simp_all add: ex_loader_def ex_env_fail_def try_allocs_ok_def)
  have a: "env_alloc ex_env_fail 0" "env_alloc ex_env_fail 1" "\<not> env_alloc ex_env_fail 2"
    by (simp_all add: ex_env_fail_def)
  have f: "ld_decodeBufs ex_loader = None" "ld_decodeThreads ex_loader = None"
    "\<not> decode_threads_spawned ex_loader" "\<not> read_thread_spawned ex_loader"
    by (simp_all add: ex_loader_def decode_threads_spawned_def read_thread_spawned_def)
  from C9_start_allocation_failure [OF h] a f h show ?thesis by auto
qed

subsection \<open>The result of reset\<close>

text \<open>
  Claim C10: \<^verbatim>\<open>Loader::reset()\<close> always returns 0, even when the \<^verbatim>\<open>start()\<close> it performs fails
  and returns -1; the failure is not propagated. Whenever \<^verbatim>\<open>reset\<close> returns, it returns 0;
  when its \<^verbatim>\<open>stop()\<close> returns and its \<^verbatim>\<open>start()\<close> returns any value, \<^verbatim>\<open>reset\<close> returns 0 and leaves
  the state \<^verbatim>\<open>start\<close> has left; and on a loader whose handles are installed and whose threads
  stop, with batch size and \<^verbatim>\<open>hardware_concurrency()\<close> at least 1, a failing allocation inside
  the \<^verbatim>\<open>try\<close> block makes the inner \<^verbatim>\<open>start\<close> return -1 while \<^verbatim>\<open>reset\<close> returns 0.
\<close>

theorem C10_reset_returns_zero:
  "(reset e l = Inr (r, l') \<longrightarrow> r = 0) \<and>
   (stop e l = Inr l1 \<and> start e (l1\<lparr>ld_reader_pos := 0\<rparr>) = Inr (r1, l2) \<longrightarrow>
      reset e l = Inr (0, l2)) \<and>
   (installed l \<and> env_threads_stop e \<and> 1 \<le> ld_batchSize l \<and> 1 \<le> env_numCores e \<and>
    \<not> try_allocs_ok e \<longrightarrow>
      (\<exists>l3. stop e l = Inr (stopped l) \<and>
            start e ((stopped l)\<lparr>ld_reader_pos := 0\<rparr>) = Inr (- 1, l3) \<and>
            reset e l = Inr (0, l3)))"
proof (intro conjI impI)
  assume "reset e l = Inr (r, l')"
  then show "r = 0"
    by (auto simp add: reset_def split: sum.splits prod.splits)
next
  assume "stop e l = Inr l1 \<and> start e (l1\<lparr>ld_reader_pos := 0\<rparr>) = Inr (r1, l2)"
  then show "reset e l = Inr (0, l2)" by (simp add: reset_def)
next
  assume a: "installed l \<and> env_threads_stop e \<and> 1 \<le> ld_batchSize l \<and>
    1 \<le> env_numCores e \<and> \<not> try_allocs_ok e"
  let ?l = "(stopped l)\<lparr>ld_reader_pos := 0\<rparr>"
  have s: "stop e l = Inr (stopped l)" using a by (simp add: stop_def)
  have b: "1 \<le> ld_batchSize ?l" using a by (simp add: stopped_def)
  from start_failure [OF b] a obtain l3 where l3: "start e ?l = Inr (- 1, l3)" by blast
  have "reset e l = Inr (0, l3)" using s l3 by (simp add: reset_def)
  then show "\<exists>l3. stop e l = Inr (stopped l) \<and> start e ?l = Inr (- 1, l3) \<and>
    reset e l = Inr (0, l3)" using s l3 by blast
qed

theorem C10_reset_returns_zero_witness:
  "start ex_env ex_loader = Inr (0, ex_running) \<and>
   stop ex_env_fail ex_running = Inr (stopped ex_running) \<and>
   start ex_env_fail ((stopped ex_running)\<lparr>ld_reader_pos := 0\<rparr>) = Inr (- 1, ex_partial) \<and>
   reset ex_env_fail ex_running = Inr (0, ex_partial)"
proof -
  have a: "start ex_env ex_loader = Inr (0, ex_running)"
    by (simp add: start_def Let_def ex_env_def ex_loader_def ex_running_def c_div_def
        start_threadCount_def ctor_asserts_def ctor_itemsPerThread_def)
  have s: "stop ex_env_fail ex_running = Inr (stopped ex_running)"
    by (simp add: stop_def installed_def ex_env_fail_def ex_running_def)
  have t: "start ex_env_fail ((stopped ex_running)\<lparr>ld_reader_pos := 0\<rparr>) = Inr (- 1, ex_partial)"
    by (simp add: start_def Let_def ex_env_fail_def ex_loader_def ex_running_def ex_partial_def
        stopped_def c_div_def)
  from C10_reset_returns_zero [of ex_env_fail ex_running _ _ "stopped ex_running" "- 1" ex_partial]
    s t
  have "reset ex_env_fail ex_running = Inr (0, ex_partial)" by blast
  then show ?thesis using a s t by simp
qed

end
